theory Spec2Isabelle
  imports Main
begin

section \<open>Strings and characters\<close>

text \<open>
  A JavaScript string is modelled as a \<open>string\<close>: a list of 8-bit characters, read as the
  code units 0..255 (Latin-1).  Code units above 255 are outside the model.  The helper
  functions below give the ECMAScript behaviour of the character classes on that range.
\<close>

definition code :: "char \<Rightarrow> int" where
  "code c = of_char c"

text \<open>\<open>\s\<close>: tab, line feed, vertical tab, form feed, carriage return, space, no-break space.\<close>

definition is_space :: "char \<Rightarrow> bool" where
  "is_space c = ((9 \<le> code c \<and> code c \<le> 13) \<or> code c = 32 \<or> code c = 160)"

text \<open>Line terminators (for \<open>.\<close>, and for \<open>^\<close> and \<open>$\<close> under the \<open>m\<close> flag).\<close>

definition is_line_term :: "char \<Rightarrow> bool" where
  "is_line_term c = (code c = 10 \<or> code c = 13)"

text \<open>\<open>\w\<close>: \<open>[A-Za-z0-9_]\<close>.\<close>

definition is_word :: "char \<Rightarrow> bool" where
  "is_word c = ((65 \<le> code c \<and> code c \<le> 90) \<or> (97 \<le> code c \<and> code c \<le> 122)
                \<or> (48 \<le> code c \<and> code c \<le> 57) \<or> code c = 95)"

text \<open>
  The single-character case mappings on code units 0..255, as code units.  \<open>upper_code\<close> is
  the \<open>Canonicalize\<close> of the \<open>i\<close> flag: the two characters of the range whose upper case
  lies outside it (micro sign, y with diaeresis) and the sharp s stay themselves, which
  leaves them equal to no other character, as in ECMAScript.
\<close>

definition lower_code :: "char \<Rightarrow> int" where
  "lower_code c = (if (65 \<le> code c \<and> code c \<le> 90) \<or> (192 \<le> code c \<and> code c \<le> 222 \<and> code c \<noteq> 215)
                   then code c + 32 else code c)"

definition upper_code :: "char \<Rightarrow> int" where
  "upper_code c = (if (97 \<le> code c \<and> code c \<le> 122) \<or> (224 \<le> code c \<and> code c \<le> 254 \<and> code c \<noteq> 247)
                   then code c - 32 else code c)"

definition toLowerCh :: "char \<Rightarrow> char" where
  "toLowerCh c = char_of (lower_code c)"

definition toLowerCase :: "string \<Rightarrow> string" where
  "toLowerCase s = map toLowerCh s"

text \<open>\<open>s.startsWith(p)\<close>, \<open>s.endsWith(p)\<close>, \<open>s.includes(p)\<close>, \<open>s.lastIndexOf(c)\<close>.\<close>

definition startsWith :: "string \<Rightarrow> string \<Rightarrow> bool" where
  "startsWith s p = (take (length p) s = p)"

definition endsWith :: "string \<Rightarrow> string \<Rightarrow> bool" where
  "endsWith s p = (length p \<le> length s \<and> drop (length s - length p) s = p)"

fun includes_str :: "string \<Rightarrow> string \<Rightarrow> bool" where
  "includes_str [] p = (p = [])"
| "includes_str (c # cs) p = (startsWith (c # cs) p \<or> includes_str cs p)"

text \<open>\<open>lastIndexOf\<close> of a character: \<open>None\<close> stands for -1.\<close>

fun lastIndexOf_from :: "'a \<Rightarrow> 'a list \<Rightarrow> nat \<Rightarrow> nat option \<Rightarrow> nat option" where
  "lastIndexOf_from d [] i found = found"
| "lastIndexOf_from d (c # cs) i found = lastIndexOf_from d cs (Suc i) (if c = d then Some i else found)"

definition lastIndexOf :: "'a list \<Rightarrow> 'a \<Rightarrow> nat option" where
  "lastIndexOf s d = lastIndexOf_from d s 0 None"

section \<open>Regular expressions\<close>

text \<open>
  The patterns of the rule catalogue are JavaScript regular expressions.  They use literals,
  \<open>.\<close>, character classes, sequence, alternation, greedy and lazy repetition, \<open>\b\<close>,
  \<open>^\<close>, \<open>$\<close> and negative lookahead; no back-references.  The matcher is the backtracking
  matcher of ECMAScript: from a position it yields the positions where a match can end, in
  the order in which backtracking tries them, so the head of the list is the match that
  \<open>exec\<close> reports.  A position is the character before it (if any) and the rest of the input.
\<close>

type_synonym mstate = "char option \<times> string"

record flags =
  icase :: bool
  multiline :: bool

datatype regex =
    Eps
  | Lit char
  | Dot
  | Cls bool "(int \<times> int) list"
  | Seq regex regex
  | Alt regex regex
  | Star regex
  | LazyStar regex
  | WordB
  | Bol
  | Eol
  | NotAhead regex

text \<open>A class is a list of code-unit ranges, with a flag for negation (\<open>[^...]\<close>).\<close>

definition in_ranges :: "(int \<times> int) list \<Rightarrow> int \<Rightarrow> bool" where
  "in_ranges rs n = list_ex (\<lambda>(lo, hi). lo \<le> n \<and> n \<le> hi) rs"

text \<open>
  With the \<open>i\<close> flag a character belongs to a class when some member has the same canonical
  form: the character itself, its upper case or its lower case is a member.
\<close>

definition cls_has :: "flags \<Rightarrow> (int \<times> int) list \<Rightarrow> char \<Rightarrow> bool" where
  "cls_has f rs c = (if icase f then in_ranges rs (code c) \<or> in_ranges rs (upper_code c) \<or> in_ranges rs (lower_code c)
                     else in_ranges rs (code c))"

definition lit_eq :: "flags \<Rightarrow> char \<Rightarrow> char \<Rightarrow> bool" where
  "lit_eq f c x = (if icase f then upper_code x = upper_code c else x = c)"

fun step :: "(char \<Rightarrow> bool) \<Rightarrow> mstate \<Rightarrow> mstate list" where
  "step P (p, []) = []"
| "step P (p, c # cs) = (if P c then [(Some c, cs)] else [])"

definition at_word_boundary :: "mstate \<Rightarrow> bool" where
  "at_word_boundary st =
     ((case fst st of None \<Rightarrow> False | Some c \<Rightarrow> is_word c)
      \<noteq> (case snd st of [] \<Rightarrow> False | c # _ \<Rightarrow> is_word c))"

definition at_bol :: "flags \<Rightarrow> mstate \<Rightarrow> bool" where
  "at_bol f st = (case fst st of None \<Rightarrow> True | Some c \<Rightarrow> multiline f \<and> is_line_term c)"

definition at_eol :: "flags \<Rightarrow> mstate \<Rightarrow> bool" where
  "at_eol f st = (case snd st of [] \<Rightarrow> True | c # _ \<Rightarrow> multiline f \<and> is_line_term c)"

text \<open>
  Repetition \<open>r*\<close> and \<open>r*?\<close>.  An iteration that consumes nothing is rejected, as in
  ECMAScript's \<open>RepeatMatcher\<close>, so every iteration shortens the rest of the input and the
  number of iterations is at most its length: that length is the bound \<open>n\<close>.
\<close>

primrec star_greedy :: "(mstate \<Rightarrow> mstate list) \<Rightarrow> nat \<Rightarrow> mstate \<Rightarrow> mstate list" where
  "star_greedy m 0 st = [st]"
| "star_greedy m (Suc n) st =
     concat (map (\<lambda>st'. if length (snd st') < length (snd st) then star_greedy m n st' else []) (m st)) @ [st]"

primrec star_lazy :: "(mstate \<Rightarrow> mstate list) \<Rightarrow> nat \<Rightarrow> mstate \<Rightarrow> mstate list" where
  "star_lazy m 0 st = [st]"
| "star_lazy m (Suc n) st =
     st # concat (map (\<lambda>st'. if length (snd st') < length (snd st) then star_lazy m n st' else []) (m st))"

primrec rmatch :: "flags \<Rightarrow> regex \<Rightarrow> mstate \<Rightarrow> mstate list" where
  "rmatch f Eps st = [st]"
| "rmatch f (Lit c) st = step (lit_eq f c) st"
| "rmatch f Dot st = step (\<lambda>x. \<not> is_line_term x) st"
| "rmatch f (Cls neg rs) st = step (\<lambda>x. cls_has f rs x \<noteq> neg) st"
| "rmatch f (Seq a b) st = concat (map (rmatch f b) (rmatch f a st))"
| "rmatch f (Alt a b) st = rmatch f a st @ rmatch f b st"
| "rmatch f (Star r) st = star_greedy (rmatch f r) (length (snd st)) st"
| "rmatch f (LazyStar r) st = star_lazy (rmatch f r) (length (snd st)) st"
| "rmatch f WordB st = (if at_word_boundary st then [st] else [])"
| "rmatch f Bol st = (if at_bol f st then [st] else [])"
| "rmatch f Eol st = (if at_eol f st then [st] else [])"
| "rmatch f (NotAhead r) st = (if rmatch f r st = [] then [st] else [])"

text \<open>Derived forms: \<open>r+\<close>, \<open>r?\<close>, \<open>r{n}\<close>, a literal word, an alternation of several.\<close>

definition Plus :: "regex \<Rightarrow> regex" where
  "Plus r = Seq r (Star r)"

definition Opt :: "regex \<Rightarrow> regex" where
  "Opt r = Alt r Eps"

primrec Rep :: "nat \<Rightarrow> regex \<Rightarrow> regex" where
  "Rep 0 r = Eps"
| "Rep (Suc n) r = Seq r (Rep n r)"

primrec Str :: "string \<Rightarrow> regex" where
  "Str [] = Eps"
| "Str (c # cs) = Seq (Lit c) (Str cs)"

primrec Seqs :: "regex list \<Rightarrow> regex" where
  "Seqs [] = Eps"
| "Seqs (r # rs) = Seq r (Seqs rs)"

fun Alts :: "regex list \<Rightarrow> regex" where
  "Alts [] = NotAhead Eps"
| "Alts [r] = r"
| "Alts (r # rs) = Alt r (Alts rs)"

text \<open>
  The search of \<open>RegExp.prototype.exec\<close>: the leftmost position at or after the start where
  the pattern matches, with the index and the text of the first match there.
\<close>

type_synonym pattern = "flags \<times> regex"

fun search :: "pattern \<Rightarrow> char option \<Rightarrow> string \<Rightarrow> nat \<Rightarrow> (nat \<times> string) option" where
  "search pat p [] i =
     (case rmatch (fst pat) (snd pat) (p, []) of [] \<Rightarrow> None | e # _ \<Rightarrow> Some (i, []))"
| "search pat p (c # cs) i =
     (case rmatch (fst pat) (snd pat) (p, c # cs) of
        [] \<Rightarrow> search pat (Some c) cs (Suc i)
      | e # _ \<Rightarrow> Some (i, take (Suc (length cs) - length (snd e)) (c # cs)))"

text \<open>\<open>pattern.test(s)\<close> for a pattern without the \<open>g\<close> flag.\<close>

definition test_re :: "pattern \<Rightarrow> string \<Rightarrow> bool" where
  "test_re pat s = (search pat None s 0 \<noteq> None)"

text \<open>\<open>exec\<close> of a pattern with the \<open>g\<close> flag, started at \<open>lastIndex\<close>.\<close>

definition exec_from :: "pattern \<Rightarrow> string \<Rightarrow> nat \<Rightarrow> (nat \<times> string) option" where
  "exec_from pat s lastIndex =
     (if lastIndex > length s then None
      else search pat (if lastIndex = 0 then None else Some (s ! (lastIndex - 1))) (drop lastIndex s) lastIndex)"

section \<open>The rule catalogue (rules-engine.mjs)\<close>

text \<open>Shorthands for the character classes the patterns use.\<close>

definition sp :: regex where
  "sp = Cls False [(9, 13), (32, 32), (160, 160)]"

definition digit :: regex where
  "digit = Cls False [(48, 57)]"

definition quote3 :: regex where
  "quote3 = Cls False [(39, 39), (34, 34), (96, 96)]"

definition quote2 :: regex where
  "quote2 = Cls False [(39, 39), (34, 34)]"

definition letters :: regex where
  "letters = Cls False [(97, 122), (65, 90)]"

definition sql_verb :: regex where
  "sql_verb = Alts [Str ''SELECT'', Str ''INSERT'', Str ''UPDATE'', Str ''DELETE'', Str ''DROP'',
                    Str ''ALTER'', Str ''CREATE'']"

definition plain :: flags where
  "plain = \<lparr>icase = False, multiline = False\<rparr>"

definition flag_i :: flags where
  "flag_i = \<lparr>icase = True, multiline = False\<rparr>"

definition flag_m :: flags where
  "flag_m = \<lparr>icase = False, multiline = True\<rparr>"

text \<open>
  A rule: \<open>fileExtensions\<close> is \<open>None\<close> for \<open>null\<close>.  The \<open>description\<close> field of the source is
  documentation only and is left out.
\<close>

record rule =
  rule_id :: string
  rule_pattern :: pattern
  appliesTo :: string
  fileExtensions :: "string list option"
  rule_message :: string

record violation =
  ruleId :: string
  cycle :: nat
  message :: string

definition js_exts :: "string list" where
  "js_exts = [''.js'', ''.ts'', ''.jsx'', ''.tsx'', ''.mjs'', ''.cjs'']"

definition pat_no_todo :: pattern where
  "pat_no_todo = (plain, Seqs [WordB, Alts [Str ''TODO'', Str ''FIXME'', Str ''HACK'', Str ''XXX''], WordB])"

definition pat_no_empty_pass :: pattern where
  "pat_no_empty_pass = (flag_m, Seqs [Bol, Star sp, Str ''pass'', Star sp, Eol])"

definition pat_no_not_implemented :: pattern where
  "pat_no_not_implemented = (plain, Seqs [Str ''raise'', Plus sp, Str ''NotImplementedError''])"

definition pat_no_ellipsis :: pattern where
  "pat_no_ellipsis = (flag_m, Seqs [Bol, Star sp, Str ''...'', Star sp, Eol])"

definition pat_no_placeholder_text :: pattern where
  "pat_no_placeholder_text = (flag_i, Seqs [WordB,
     Alts [Str ''placeholder'', Str ''stub'', Str ''mock implementation'',
           Seqs [Str ''implement'', Plus sp, Str ''this''],
           Seqs [Str ''add'', Plus sp, Str ''implementation'', Plus sp, Str ''here''],
           Seqs [Str ''your'', Plus sp, Str ''code'', Plus sp, Str ''here'']],
     WordB])"

definition pat_no_throw_not_impl :: pattern where
  "pat_no_throw_not_impl = (flag_i, Seqs [Str ''throw'', Plus sp, Str ''new'', Plus sp, Str ''Error'',
     Star sp, Lit CHR ''('', Star sp, quote3, Star Dot, Str ''not'', Plus sp, Str ''implemented''])"

definition CYCLE1_RULES :: "rule list" where
  \<open>CYCLE1_RULES = [
     \<lparr>rule_id = ''no-todo'', rule_pattern = pat_no_todo, appliesTo = ''file-write'',
      fileExtensions = None,
      rule_message = ''Code contains a TODO/FIXME/HACK/XXX comment. Remove placeholder comments and implement the actual logic.''\<rparr>,
     \<lparr>rule_id = ''no-empty-pass'', rule_pattern = pat_no_empty_pass, appliesTo = ''file-write'',
      fileExtensions = Some [''.py'', ''.pyi''],
      rule_message = ''Python file contains a bare "pass" statement. Implement the actual logic instead of using a placeholder.''\<rparr>,
     \<lparr>rule_id = ''no-not-implemented'', rule_pattern = pat_no_not_implemented, appliesTo = ''file-write'',
      fileExtensions = Some [''.py'', ''.pyi''],
      rule_message = ''Code raises NotImplementedError. Implement the actual functionality instead of leaving a stub.''\<rparr>,
     \<lparr>rule_id = ''no-ellipsis'', rule_pattern = pat_no_ellipsis, appliesTo = ''file-write'',
      fileExtensions = Some [''.py'', ''.pyi''],
      rule_message = ''Python file contains an ellipsis (...) placeholder. Implement the actual logic.''\<rparr>,
     \<lparr>rule_id = ''no-placeholder-text'', rule_pattern = pat_no_placeholder_text, appliesTo = ''file-write'',
      fileExtensions = None,
      rule_message = ''Code contains placeholder/stub text. Write the complete implementation.''\<rparr>,
     \<lparr>rule_id = ''no-throw-not-impl'', rule_pattern = pat_no_throw_not_impl, appliesTo = ''file-write'',
      fileExtensions = Some js_exts,
      rule_message = ''Code throws a "not implemented" error. Implement the actual functionality.''\<rparr>]\<close>

definition pat_no_eval :: pattern where
  "pat_no_eval = (plain, Seqs [WordB, Str ''eval'', Star sp, Lit CHR ''(''])"

definition pat_no_exec :: pattern where
  "pat_no_exec = (plain, Seqs [WordB, Str ''exec'', Star sp, Lit CHR ''(''])"

definition pat_no_os_system :: pattern where
  "pat_no_os_system = (plain, Seqs [WordB, Str ''os.system'', Star sp, Lit CHR ''(''])"

definition pat_no_shell_true :: pattern where
  "pat_no_shell_true = (plain, Seqs [Str ''shell'', Star sp, Lit CHR ''='', Star sp, Str ''True''])"

definition sep_opt :: regex where
  "sep_opt = Opt (Cls False [(95, 95), (45, 45)])"

definition pat_no_hardcoded_secrets :: pattern where
  "pat_no_hardcoded_secrets = (flag_i, Seqs [
     Alts [Seqs [Str ''api'', sep_opt, Str ''key''], Seqs [Str ''api'', sep_opt, Str ''secret''],
           Str ''password'', Str ''passwd'', Seqs [Str ''secret'', sep_opt, Str ''key''],
           Seqs [Str ''access'', sep_opt, Str ''token''], Seqs [Str ''auth'', sep_opt, Str ''token''],
           Seqs [Str ''private'', sep_opt, Str ''key'']],
     Star sp, Cls False [(58, 58), (61, 61)], Star sp, quote3,
     Rep 8 (Cls False [(65, 90), (97, 122), (48, 57), (43, 43), (47, 47), (61, 61), (95, 95), (45, 45)]),
     Star (Cls False [(65, 90), (97, 122), (48, 57), (43, 43), (47, 47), (61, 61), (95, 95), (45, 45)])])"

definition pat_no_raw_sql :: pattern where
  "pat_no_raw_sql = (flag_i, Alt
     (Seqs [Lit CHR ''f'', quote3, Star Dot, sql_verb, Plus sp, Star Dot, Lit CHR ''{''])
     (Seqs [sql_verb, Plus sp, Star Dot,
            Alts [Seqs [quote2, Star sp, Lit CHR ''+''], Seqs [Lit CHR ''+'', Star sp, quote2],
                  Str ''${'', Str ''%s'', Str ''.format('']]))"

definition pat_no_innerhtml :: pattern where
  "pat_no_innerhtml = (plain, Seqs [Str ''.innerHTML'', Star sp, Lit CHR ''=''])"

definition pat_no_rm_rf :: pattern where
  "pat_no_rm_rf = (flag_i, Seqs [Str ''rm'', Plus sp, Opt (Seq (Lit CHR ''-'') (Star letters)),
     Lit CHR ''r'', Star letters, Lit CHR ''f'', Star letters, Plus sp,
     Alts [Seq (Lit CHR ''/'') sp, Str ''/*'', Str ''$HOME'', Str ''${HOME}'', Str ''~/'', Str ''/root'',
           Seqs [Lit CHR ''C'', Lit CHR '':'', Lit (CHR 0x5C)]]])"

definition pat_no_chmod_777 :: pattern where
  "pat_no_chmod_777 = (plain, Seqs [Str ''chmod'', Plus sp, Opt (Seq (Star Dot) sp), Str ''777'', WordB])"

definition pat_no_curl_pipe_sh :: pattern where
  "pat_no_curl_pipe_sh = (plain, Seqs [Alt (Str ''curl'') (Str ''wget''), Plus sp, Star Dot, Lit CHR ''|'',
     Star sp, Opt (Str ''ba''), Str ''sh''])"

definition pat_no_insecure_url :: pattern where
  "pat_no_insecure_url = (plain, Seqs [Str ''http://'',
     NotAhead (Alts [Str ''localhost'', Str ''127.0.0.1'', Str ''0.0.0.0'', Str ''[::1]''])])"

definition CYCLE2_RULES :: "rule list" where
  "CYCLE2_RULES = [
     \<lparr>rule_id = ''no-eval'', rule_pattern = pat_no_eval, appliesTo = ''file-write'',
      fileExtensions = Some (js_exts @ [''.py'']),
      rule_message = ''Code uses eval(). This is a critical security risk (code injection). Use a safe alternative.''\<rparr>,
     \<lparr>rule_id = ''no-exec'', rule_pattern = pat_no_exec, appliesTo = ''file-write'',
      fileExtensions = Some [''.py''],
      rule_message = ''Python code uses exec(). This allows arbitrary code execution. Use a safe alternative.''\<rparr>,
     \<lparr>rule_id = ''no-os-system'', rule_pattern = pat_no_os_system, appliesTo = ''file-write'',
      fileExtensions = Some [''.py''],
      rule_message = ''Python code uses os.system(). Use subprocess.run() with shell=False instead.''\<rparr>,
     \<lparr>rule_id = ''no-shell-true'', rule_pattern = pat_no_shell_true, appliesTo = ''file-write'',
      fileExtensions = Some [''.py''],
      rule_message = ''Python code uses shell=True in subprocess. This enables shell injection. Use shell=False and pass args as a list.''\<rparr>,
     \<lparr>rule_id = ''no-hardcoded-secrets'', rule_pattern = pat_no_hardcoded_secrets, appliesTo = ''file-write'',
      fileExtensions = None,
      rule_message = ''Code contains what appears to be a hardcoded secret (API key, password, or token). Use environment variables or a secrets manager instead.''\<rparr>,
     \<lparr>rule_id = ''no-raw-sql'', rule_pattern = pat_no_raw_sql, appliesTo = ''file-write'',
      fileExtensions = None,
      rule_message = ''Code constructs SQL using string concatenation/interpolation. Use parameterized queries to prevent SQL injection.''\<rparr>,
     \<lparr>rule_id = ''no-innerhtml'', rule_pattern = pat_no_innerhtml, appliesTo = ''file-write'',
      fileExtensions = Some (js_exts @ [''.html'']),
      rule_message = ''Code assigns to .innerHTML which enables XSS attacks. Use .textContent or a sanitization library instead.''\<rparr>,
     \<lparr>rule_id = ''no-rm-rf'', rule_pattern = pat_no_rm_rf, appliesTo = ''bash'',
      fileExtensions = None,
      rule_message = ''Command attempts destructive recursive delete on a critical path. This could destroy the system.''\<rparr>,
     \<lparr>rule_id = ''no-chmod-777'', rule_pattern = pat_no_chmod_777, appliesTo = ''bash'',
      fileExtensions = None,
      rule_message = ''Command sets world-writable permissions (777). Use more restrictive permissions (e.g. 755 or 644).''\<rparr>,
     \<lparr>rule_id = ''no-curl-pipe-sh'', rule_pattern = pat_no_curl_pipe_sh, appliesTo = ''bash'',
      fileExtensions = None,
      rule_message = ''Command pipes downloaded content directly to a shell. Download first, inspect, then execute.''\<rparr>,
     \<lparr>rule_id = ''no-insecure-url'', rule_pattern = pat_no_insecure_url, appliesTo = ''web'',
      fileExtensions = None,
      rule_message = ''URL uses insecure HTTP instead of HTTPS. Use HTTPS for all non-localhost connections.''\<rparr>]"

section \<open>The rule evaluator (rules-engine.mjs)\<close>

text \<open>
  The configuration object: \<open>disabledRules\<close> may be absent (\<open>None\<close>), and so may
  \<open>cycle4.enabled\<close>.  The content handed to a verifier is a string or \<open>null\<close>; a pattern's
  \<open>test\<close> converts its argument to a string, which turns \<open>null\<close> into the text \<open>null\<close>.
\<close>

record config =
  disabledRules :: "string list option"
  cycle4_enabled :: "bool option"

datatype jsval = JNull | JStr string

definition to_string :: "jsval \<Rightarrow> string" where
  "to_string v = (case v of JNull \<Rightarrow> ''null'' | JStr s \<Rightarrow> s)"

definition disabled_of :: "config \<Rightarrow> string list" where
  "disabled_of cfg = (case disabledRules cfg of None \<Rightarrow> [] | Some ds \<Rightarrow> ds)"

text \<open>
  One turn of the loop of \<open>_runRules\<close>: the three \<open>continue\<close> guards, then the test.  An empty
  \<open>fileExt\<close> is falsy, so the extension filter is skipped for it; \<open>fileExtensions\<close> is falsy
  only when it is \<open>null\<close>.
\<close>

definition rule_fires :: "rule \<Rightarrow> jsval \<Rightarrow> string \<Rightarrow> string \<Rightarrow> config \<Rightarrow> bool" where
  "rule_fires r content fileExt context cfg =
     (if rule_id r \<in> set (disabled_of cfg) then False
      else if appliesTo r \<noteq> ''all'' \<and> appliesTo r \<noteq> context then False
      else if (case fileExtensions r of None \<Rightarrow> False | Some exts \<Rightarrow> fileExt \<noteq> [] \<and> fileExt \<notin> set exts) then False
      else test_re (rule_pattern r) (to_string content))"

fun runRules_loop :: "nat \<Rightarrow> rule list \<Rightarrow> jsval \<Rightarrow> string \<Rightarrow> string \<Rightarrow> config \<Rightarrow> violation list" where
  "runRules_loop cyc [] content fileExt context cfg = []"
| "runRules_loop cyc (r # rs) content fileExt context cfg =
     (if rule_fires r content fileExt context cfg
      then \<lparr>ruleId = rule_id r, cycle = cyc, message = rule_message r\<rparr>
           # runRules_loop cyc rs content fileExt context cfg
      else runRules_loop cyc rs content fileExt context cfg)"

text \<open>\<open>_runRules\<close>; the category tag is 1 for the code-quality catalogue and 2 otherwise.\<close>

definition runRules :: "rule list \<Rightarrow> jsval \<Rightarrow> string \<Rightarrow> string \<Rightarrow> config \<Rightarrow> violation list" where
  "runRules rules content fileExt context cfg =
     runRules_loop (if rules = CYCLE1_RULES then 1 else 2) rules content fileExt context cfg"

definition runCycle1 :: "jsval \<Rightarrow> string \<Rightarrow> string \<Rightarrow> config \<Rightarrow> violation list" where
  "runCycle1 content fileExt context cfg = runRules CYCLE1_RULES content fileExt context cfg"

definition runCycle2 :: "jsval \<Rightarrow> string \<Rightarrow> string \<Rightarrow> config \<Rightarrow> violation list" where
  "runCycle2 content fileExt context cfg = runRules CYCLE2_RULES content fileExt context cfg"

section \<open>The research verifier (research-verifier.mjs)\<close>

definition VAGUE_PHRASES :: "string list" where
  "VAGUE_PHRASES = [''studies show'', ''research indicates'', ''experts say'', ''according to research'',
     ''data suggests'', ''it is known that'', ''generally accepted'', ''industry reports'',
     ''recent surveys'', ''analysts estimate'', ''sources suggest'', ''widely reported'',
     ''it has been shown'', ''evidence suggests'']"

text \<open>
  \<open>p.replace(/\s+/g, '\\s+')\<close> read as a pattern: each run of whitespace of the phrase
  becomes \<open>\s+\<close>, every other character of a phrase (letters only) is a literal.
\<close>

function phrase_re :: "string \<Rightarrow> regex" where
  "phrase_re [] = Eps"
| "phrase_re (c # cs) =
     (if is_space c then Seq (Plus sp) (phrase_re (dropWhile is_space cs))
      else Seq (Lit c) (phrase_re cs))"
  by pat_completeness auto
termination
  by (relation "measure length") (auto simp: length_dropWhile_le less_Suc_eq_le)

definition VAGUE_PATTERN :: pattern where
  "VAGUE_PATTERN = (flag_i, Alts (map phrase_re VAGUE_PHRASES))"

definition decimal :: regex where
  "decimal = Seq (Plus digit) (Opt (Seq (Lit CHR ''.'') (Plus digit)))"

definition CLAIM_PATTERNS :: "pattern list" where
  "CLAIM_PATTERNS = [
     (plain, Seqs [decimal, Star sp, Lit CHR ''%'']),
     (plain, Seqs [decimal, Lit CHR ''x'', WordB]),
     (flag_i, Seqs [Plus digit, Str ''-fold'', WordB]),
     (plain, Seqs [WordB, digit, Opt (Seq digit (Opt digit)),
                   Plus (Seq (Lit CHR '','') (Rep 3 digit)), WordB]),
     (flag_i, Seqs [Lit CHR ''$'', Star sp, decimal, Star sp,
                    Alts [Str ''million'', Str ''billion'', Str ''trillion'',
                          Cls False [(77, 77), (66, 66), (84, 84), (109, 109), (98, 98), (116, 116)]],
                    WordB]),
     (flag_i, Seqs [WordB, Alts [Str ''study'', Str ''survey'', Str ''report''], Plus sp,
                    Alts [Str ''by'', Str ''from'', Str ''at''], WordB]),
     (plain, Seqs [WordB, Cls False [(65, 90)], Plus (Cls False [(97, 122)]), Plus sp,
                   Alts [Str ''University'', Str ''Institute'', Str ''Lab''], WordB]),
     (flag_i, Seqs [WordB, decimal, Star sp, Str ''times'', Plus sp,
                    Alts [Str ''more'', Str ''less'', Str ''faster'', Str ''slower'', Str ''higher'',
                          Str ''lower'', Str ''greater'', Str ''better'', Str ''worse''], WordB]),
     (flag_i, Seqs [WordB, Alts [Str ''in'', Str ''since'', Str ''by'', Str ''from''], Plus sp,
                    Rep 4 digit, WordB])]"

definition http_scheme :: regex where
  "http_scheme = Seqs [Str ''http'', Opt (Lit CHR ''s''), Str ''://'']"

definition SOURCE_PATTERNS :: "pattern list" where
  "SOURCE_PATTERNS = [
     (plain, Seqs [Lit CHR ''['', LazyStar Dot, Str ''](''  , http_scheme,
                   Plus (Cls True [(9, 13), (32, 32), (160, 160), (41, 41)]), Lit CHR '')'']),
     (plain, Seqs [http_scheme,
                   Plus (Cls True [(9, 13), (32, 32), (160, 160), (41, 41), (62, 62), (93, 93)])]),
     (flag_i, Seqs [Lit CHR ''['', Alts [Str ''Source'', Str ''Ref'', Str ''Verified''],
                    Opt (Lit CHR '':''), Star (Cls True [(93, 93)]), Lit CHR '']''])]"

definition VERIFICATION_TAG :: string where
  "VERIFICATION_TAG = ''<!-- PERPLEXITY_VERIFIED -->''"

definition SOURCE_PROXIMITY :: nat where
  "SOURCE_PROXIMITY = 300"

definition msg_vague :: string where
  \<open>msg_vague = ''Research file contains vague language (e.g. "studies show", "experts say"). Replace with specific, sourced claims: name the study, author, institution, and year, then link the source.''\<close>

definition msg_unverified :: string where
  "msg_unverified = ''Research file contains statistical or factual claims but is missing the <!-- PERPLEXITY_VERIFIED --> tag. Verify all claims using Perplexity MCP tools and add the tag to confirm verification.''"

definition msg_unsourced :: string where
  "msg_unsourced = ''Research file has the PERPLEXITY_VERIFIED tag but some claims lack a source URL within 300 characters. Add a markdown link, bare URL, or [Source:]/[Ref:]/[Verified:] marker near each claim.''"

text \<open>A number printed in decimal, as a template literal does.\<close>

function show_nat :: "nat \<Rightarrow> string" where
  "show_nat n = (if n < 10 then [char_of (48 + n)] else show_nat (n div 10) @ [char_of (48 + n mod 10)])"
  by pat_completeness auto
termination
  by (relation "measure id") auto

declare show_nat.simps [simp del]

definition nl :: char where
  "nl = CHR 0x0A"

definition dq :: char where
  "dq = CHR 0x22"

record claim =
  claim_text :: string
  claim_index :: nat

text \<open>
  The \<open>while\<close> loop of \<open>extractClaims\<close> for one pattern: \<open>exec\<close> from \<open>lastIndex\<close>, which a
  match moves to its end.  The source does not advance \<open>lastIndex\<close> past an empty match, so
  the loop returns only if every match is non-empty: it is a partial function, \<open>None\<close> when
  it does not return.  The key \<open>index:text\<close> of the \<open>seen\<close> set is the pair.
\<close>

partial_function (option) exec_loop ::
  "pattern \<Rightarrow> string \<Rightarrow> nat \<Rightarrow> (nat \<times> string) list \<Rightarrow> claim list
   \<Rightarrow> ((nat \<times> string) list \<times> claim list) option" where
  "exec_loop pat content lastIndex seen claims =
     (case exec_from pat content lastIndex of
        None \<Rightarrow> Some (seen, claims)
      | Some (idx, txt) \<Rightarrow>
          if (idx, txt) \<in> set seen then exec_loop pat content (idx + length txt) seen claims
          else exec_loop pat content (idx + length txt) ((idx, txt) # seen)
                 (claims @ [\<lparr>claim_text = txt, claim_index = idx\<rparr>]))"

declare exec_loop.simps [code]

fun extract_patterns ::
  "pattern list \<Rightarrow> string \<Rightarrow> (nat \<times> string) list \<Rightarrow> claim list \<Rightarrow> claim list option" where
  "extract_patterns [] content seen claims = Some claims"
| "extract_patterns (p # ps) content seen claims =
     (case exec_loop p content 0 seen claims of
        None \<Rightarrow> None
      | Some (seen', claims') \<Rightarrow> extract_patterns ps content seen' claims')"

definition extractClaims :: "string \<Rightarrow> claim list option" where
  "extractClaims content = extract_patterns CLAIM_PATTERNS content [] []"

text \<open>\<open>content.slice(start, end)\<close> for \<open>0 \<le> start\<close> and \<open>end \<le> content.length\<close>.\<close>

definition slice :: "string \<Rightarrow> nat \<Rightarrow> nat \<Rightarrow> string" where
  "slice s start end = take (end - start) (drop start s)"

definition hasNearbySource :: "string \<Rightarrow> nat \<Rightarrow> bool" where
  "hasNearbySource content claimIndex =
     (let start = claimIndex - SOURCE_PROXIMITY;
          end = min (length content) (claimIndex + SOURCE_PROXIMITY);
          window = slice content start end
      in list_ex (\<lambda>p. test_re p window) SOURCE_PATTERNS)"

definition vague_violation :: "string \<Rightarrow> violation" where
  "vague_violation found =
     \<lparr>ruleId = ''no-vague-claims'', cycle = 4,
      message = msg_vague @ [nl, nl] @ ''Found: '' @ [dq] @ found @ [dq]\<rparr>"

definition unverified_violation :: "nat \<Rightarrow> violation" where
  "unverified_violation n =
     \<lparr>ruleId = ''no-unverified-claims'', cycle = 4,
      message = msg_unverified @ [nl, nl] @ ''Found '' @ show_nat n @ '' claim(s) without verification tag.''\<rparr>"

definition unsourced_violation :: "nat \<Rightarrow> violation" where
  "unsourced_violation n =
     \<lparr>ruleId = ''no-unsourced-claims'', cycle = 4,
      message = msg_unsourced @ [nl, nl] @ ''Found '' @ show_nat n @ '' unsourced claim(s).''\<rparr>"

text \<open>Pass 2 of \<open>runCycle4\<close>, from the extracted claims on.\<close>

definition pass2 :: "string \<Rightarrow> string list \<Rightarrow> claim list \<Rightarrow> violation list" where
  "pass2 content disabled claims =
     (if claims = [] then []
      else let hasVerificationTag = includes_str content VERIFICATION_TAG in
        if \<not> hasVerificationTag \<and> ''no-unverified-claims'' \<notin> set disabled
        then [unverified_violation (length claims)]
        else if hasVerificationTag \<and> ''no-unsourced-claims'' \<notin> set disabled
        then (let unsourced = filter (\<lambda>c. \<not> hasNearbySource content (claim_index c)) claims
              in if length unsourced > 0 then [unsourced_violation (length unsourced)] else [])
        else [])"

text \<open>
  \<open>runCycle4\<close>.  The result is \<open>None\<close> when the call does not return.  The \<open>filePath\<close>
  argument is not used by the source.
\<close>

definition runCycle4 :: "jsval \<Rightarrow> string \<Rightarrow> config \<Rightarrow> violation list option" where
  "runCycle4 content filePath cfg =
     (case content of
        JNull \<Rightarrow> Some []
      | JStr s \<Rightarrow>
          if s = [] then Some []
          else case (if ''no-vague-claims'' \<notin> set (disabled_of cfg) then search VAGUE_PATTERN None s 0
                     else None) of
                 Some (i, found) \<Rightarrow> Some [vague_violation found]
               | None \<Rightarrow> map_option (pass2 s (disabled_of cfg)) (extractClaims s))"

section \<open>Path utilities (lib/utils.mjs)\<close>

text \<open>\<open>getFileExtension\<close>: the empty path, no dot, or a dot in last place give the empty string.\<close>

definition getFileExtension :: "string \<Rightarrow> string" where
  "getFileExtension filePath =
     (if filePath = [] then []
      else case lastIndexOf filePath CHR ''.'' of
             None \<Rightarrow> []
           | Some lastDot \<Rightarrow>
               if lastDot = length filePath - 1 then []
               else toLowerCase (drop lastDot filePath))"

subsection \<open>Paths as UTF-16 code units\<close>











text \<open>\<open>s.split(d)\<close> for a one-character separator, and \<open>replace(/\\/g, '/')\<close>.\<close>

fun split_on :: "char \<Rightarrow> string \<Rightarrow> string list" where
  "split_on d [] = [[]]"
| "split_on d (c # cs) =
     (if c = d then [] # split_on d cs
      else case split_on d cs of [] \<Rightarrow> [[c]] | x # xs \<Rightarrow> (c # x) # xs)"

definition backslash :: char where
  "backslash = CHR 0x5C"

definition slashes :: "string \<Rightarrow> string" where
  "slashes s = map (\<lambda>c. if c = backslash then CHR ''/'' else c) s"

definition isResearchFile :: "string \<Rightarrow> bool" where
  "isResearchFile filePath =
     (if filePath = [] then False
      else let normalized = toLowerCase (slashes filePath) in
        if \<not> endsWith normalized ''.md'' then False
        else let fileName = last (split_on CHR ''/'' normalized) in
          includes_str normalized ''/research/'' \<or> includes_str fileName ''research'')"

text \<open>
  The classification as the specification words it, for comparison with \<open>isResearchFile\<close>:
  the path, with either separator and in any letter case, ends in \<open>.md\<close> and has a directory
  segment named \<open>research\<close> or a file name that contains \<open>research\<close>.  The segments are the
  parts between separators; the last one is the file name, the others are directories.
\<close>

definition isResearchTarget_spec :: "string \<Rightarrow> bool" where
  "isResearchTarget_spec path =
     (let n = toLowerCase (slashes path); segments = split_on CHR ''/'' n
      in endsWith n ''.md''
         \<and> (''research'' \<in> set (butlast segments) \<or> includes_str (last segments) ''research''))"

section \<open>The dispatcher (pre-tool-gate.mjs)\<close>

text \<open>
  The tool input is the list of its string-valued fields, in property order.  A field that
  is absent or empty reads as the empty string (\<open>toolInput.f || ''\<close>).
\<close>

type_synonym tool_input = "(string \<times> string) list"

definition field :: "tool_input \<Rightarrow> string \<Rightarrow> string" where
  "field ti k = (case map_of ti k of None \<Rightarrow> [] | Some v \<Rightarrow> v)"

record extracted =
  ex_content :: string
  ex_context :: string
  ex_fileExt :: string
  ex_filePath :: string

text \<open>\<open>values.join('\n')\<close>.\<close>

fun join_nl :: "string list \<Rightarrow> string" where
  "join_nl [] = []"
| "join_nl [v] = v"
| "join_nl (v # vs) = v @ [nl] @ join_nl vs"

definition extractContent :: "string \<Rightarrow> tool_input \<Rightarrow> extracted" where
  "extractContent toolName toolInput =
     (let normalized = toLowerCase toolName;
          filePath = field toolInput ''file_path''
      in if normalized = ''write''
         then \<lparr>ex_content = field toolInput ''content'', ex_context = ''file-write'',
               ex_fileExt = getFileExtension filePath, ex_filePath = filePath\<rparr>
         else if normalized = ''edit''
         then \<lparr>ex_content = field toolInput ''new_string'', ex_context = ''file-write'',
               ex_fileExt = getFileExtension filePath, ex_filePath = filePath\<rparr>
         else if normalized = ''bash''
         then \<lparr>ex_content = field toolInput ''command'', ex_context = ''bash'',
               ex_fileExt = [], ex_filePath = []\<rparr>
         else if normalized = ''webfetch'' \<or> normalized = ''websearch''
         then \<lparr>ex_content = (if field toolInput ''url'' \<noteq> [] then field toolInput ''url''
                              else field toolInput ''query''),
               ex_context = ''web'', ex_fileExt = [], ex_filePath = []\<rparr>
         else if startsWith normalized ''mcp__'' \<or> startsWith normalized ''mcp_''
         then \<lparr>ex_content = join_nl (map snd toolInput), ex_context = ''mcp'',
               ex_fileExt = [], ex_filePath = []\<rparr>
         else \<lparr>ex_content = [], ex_context = ''unknown'', ex_fileExt = [], ex_filePath = []\<rparr>)"

text \<open>
  The routing of the gate (\<open>allViolations\<close>): research files go to cycle 4 alone unless
  \<open>config.cycle4.enabled\<close> is \<open>false\<close>; everything else to cycles 1 and 2.
\<close>

definition allViolations :: "config \<Rightarrow> extracted \<Rightarrow> violation list option" where
  "allViolations cfg ex =
     (if isResearchFile (ex_filePath ex) \<and> cycle4_enabled cfg \<noteq> Some False
      then runCycle4 (JStr (ex_content ex)) (ex_filePath ex) cfg
      else let cycle1Violations = runCycle1 (JStr (ex_content ex)) (ex_fileExt ex) (ex_context ex) cfg;
               cycle2Violations = runCycle2 (JStr (ex_content ex)) (ex_fileExt ex) (ex_context ex) cfg
           in Some (cycle1Violations @ cycle2Violations))"

datatype decision = Approve | Block string

fun join_nl2 :: "string list \<Rightarrow> string" where
  "join_nl2 [] = []"
| "join_nl2 [v] = v"
| "join_nl2 (v # vs) = v @ [nl, nl] @ join_nl2 vs"

definition reason_of :: "violation \<Rightarrow> string" where
  "reason_of v = ''[Cycle '' @ show_nat (cycle v) @ '' - '' @ ruleId v @ ''] '' @ message v"

definition reasonText :: "violation list \<Rightarrow> string" where
  "reasonText vs = ''Triple Verification BLOCKED this operation:'' @ [nl, nl] @ join_nl2 (map reason_of vs)
                   @ [nl, nl] @ ''Fix these issues and try again.''"

text \<open>The gate for one hook input: no content approves without running a verifier.\<close>

definition preToolGate :: "config \<Rightarrow> string \<Rightarrow> tool_input \<Rightarrow> decision option" where
  "preToolGate cfg toolName toolInput =
     (let ex = extractContent toolName toolInput in
      if ex_content ex = [] then Some Approve
      else map_option (\<lambda>vs. if length vs > 0 then Block (reasonText vs) else Approve)
             (allViolations cfg ex))"

section \<open>Syntactic properties of patterns\<close>

text \<open>
  \<open>consuming r\<close>: a sufficient syntactic condition for every match of \<open>r\<close> to consume at
  least one character.  \<open>inked f r\<close>: a sufficient condition for every match of \<open>r\<close> under
  the flags \<open>f\<close> to consume a character that is not whitespace.
\<close>

primrec consuming :: "regex \<Rightarrow> bool" where
  "consuming Eps = False"
| "consuming (Lit c) = True"
| "consuming Dot = True"
| "consuming (Cls neg rs) = True"
| "consuming (Seq a b) = (consuming a \<or> consuming b)"
| "consuming (Alt a b) = (consuming a \<and> consuming b)"
| "consuming (Star r) = False"
| "consuming (LazyStar r) = False"
| "consuming WordB = False"
| "consuming Bol = False"
| "consuming Eol = False"
| "consuming (NotAhead r) = False"

definition ws_chars :: "char list" where
  "ws_chars = [CHR 0x09, CHR 0x0A, CHR 0x0B, CHR 0x0C, CHR 0x0D, CHR 0x20, CHR 0xA0]"

primrec inked :: "flags \<Rightarrow> regex \<Rightarrow> bool" where
  "inked f Eps = False"
| "inked f (Lit c) = list_all (\<lambda>w. \<not> lit_eq f c w) ws_chars"
| "inked f Dot = False"
| "inked f (Cls neg rs) = list_all (\<lambda>w. cls_has f rs w = neg) ws_chars"
| "inked f (Seq a b) = (inked f a \<or> inked f b)"
| "inked f (Alt a b) = (inked f a \<and> inked f b)"
| "inked f (Star r) = False"
| "inked f (LazyStar r) = False"
| "inked f WordB = False"
| "inked f Bol = False"
| "inked f Eol = False"
| "inked f (NotAhead r) = False"

text \<open>\<open>sfx st' st\<close>: the rest of the input at \<open>st'\<close> is a suffix of the rest at \<open>st\<close>.\<close>

definition sfx :: "mstate \<Rightarrow> mstate \<Rightarrow> bool" where
  "sfx st' st = (\<exists>u. snd st = u @ snd st')"

section \<open>Example inputs\<close>

definition cfg0 :: config where
  "cfg0 = \<lparr>disabledRules = None, cycle4_enabled = None\<rparr>"

definition cfg_off :: config where
  "cfg_off = \<lparr>disabledRules = Some [''no-todo'', ''no-eval'', ''no-unverified-claims''], cycle4_enabled = None\<rparr>"

definition near_miss_space :: string where
  "near_miss_space = ''<!-- PERPLEXITY VERIFIED --> Revenue grew 45%.''"

definition near_miss_case :: string where
  "near_miss_case = ''<!-- perplexity_verified --> Revenue grew 45%.''"

definition near_miss_spacing :: string where
  "near_miss_spacing = ''<!--PERPLEXITY_VERIFIED--> Revenue grew 45%.''"

definition rule_no_empty_pass :: rule where
  "rule_no_empty_pass = CYCLE1_RULES ! 1"

text \<open>The reverse of \<open>slashes\<close>: a path written with back-slashes.\<close>

definition backslashes :: "string \<Rightarrow> string" where
  "backslashes s = map (\<lambda>c. if c = CHR ''/'' then backslash else c) s"

definition path_windows :: string where
  "path_windows = ''C:'' @ [backslash] @ ''Docs'' @ [backslash] @ ''Research'' @ [backslash] @ ''Q1.MD''"

text \<open>
  \<open>rlocal r\<close>: the pattern never looks at the input beyond the text it consumes (no \<open>\b\<close>,
  \<open>$\<close> or lookahead).
\<close>

primrec rlocal :: "regex \<Rightarrow> bool" where
  "rlocal Eps = True"
| "rlocal (Lit c) = True"
| "rlocal Dot = True"
| "rlocal (Cls neg rs) = True"
| "rlocal (Seq a b) = (rlocal a \<and> rlocal b)"
| "rlocal (Alt a b) = (rlocal a \<and> rlocal b)"
| "rlocal (Star r) = rlocal r"
| "rlocal (LazyStar r) = rlocal r"
| "rlocal WordB = False"
| "rlocal Bol = True"
| "rlocal Eol = False"
| "rlocal (NotAhead r) = False"

text \<open>
  Two tagged documents with one claim, \<open>45%\<close>.  In the first the claim starts at index 28
  and a URL starts at index 328, 300 characters after it.  In the second a URL starts at
  index 0 and the claim at index 300.
\<close>

definition doc_after300 :: string where
  "doc_after300 = VERIFICATION_TAG @ ''45%'' @ replicate 297 CHR '' '' @ ''https://x.com''"

definition doc_before300 :: string where
  "doc_before300 = ''https://x.com'' @ replicate 287 CHR '' '' @ ''45%'' @ VERIFICATION_TAG"

section \<open>Characters\<close>

lemma code_inj: "code a = code b \<longleftrightarrow> a = b"
  by (simp add: code_def)

lemma code_range: "0 \<le> code c \<and> code c < 256"
proof -
  have "code c mod 256 = code c" by (simp add: code_def)
  then show ?thesis
    by (metis pos_mod_bound pos_mod_sign zero_less_numeral)
qed

lemma code_char_of: "0 \<le> n \<Longrightarrow> n < 256 \<Longrightarrow> code (char_of n) = n"
  by (simp add: code_def)

lemma lower_code_range: "0 \<le> lower_code c \<and> lower_code c < 256"
  using code_range [of c] by (auto simp: lower_code_def)

lemma code_toLowerCh: "code (toLowerCh c) = lower_code c"
  using lower_code_range [of c] by (simp add: toLowerCh_def code_char_of)

lemma toLowerCh_idem: "toLowerCh (toLowerCh c) = toLowerCh c"
  by (auto simp: code_inj [symmetric] code_toLowerCh lower_code_def)



lemma toLowerCase_idem: "toLowerCase (toLowerCase s) = toLowerCase s"
  by (simp add: toLowerCase_def toLowerCh_idem)



lemma is_space_upper: "is_space x \<Longrightarrow> upper_code x = code x"
  by (auto simp: is_space_def upper_code_def)

section \<open>Rule evaluator\<close>

lemma runRules_loop_filter:
  "runRules_loop cyc rs c e x cfg =
     map (\<lambda>r. \<lparr>ruleId = rule_id r, cycle = cyc, message = rule_message r\<rparr>)
         (filter (\<lambda>r. rule_fires r c e x cfg) rs)"
  by (induction rs) simp_all

lemma ruleId_runRules:
  "ruleId ` set (runRules rs c e x cfg) = rule_id ` {r \<in> set rs. rule_fires r c e x cfg}"
  by (auto simp: runRules_def runRules_loop_filter image_iff)

lemma cycle_runRules_loop: "v \<in> set (runRules_loop cyc rs c e x cfg) \<Longrightarrow> cycle v = cyc"
  by (auto simp: runRules_loop_filter)

lemma distinct_rule_ids: "distinct (map rule_id (CYCLE1_RULES @ CYCLE2_RULES))"
  by (simp add: CYCLE1_RULES_def CYCLE2_RULES_def)

lemma CYCLE2_not_CYCLE1: "CYCLE2_RULES \<noteq> CYCLE1_RULES"
proof
  assume "CYCLE2_RULES = CYCLE1_RULES"
  then have "length CYCLE2_RULES = length CYCLE1_RULES" by simp
  then show False by (simp add: CYCLE1_RULES_def CYCLE2_RULES_def)
qed

lemma cycle_runCycle1: "v \<in> set (runCycle1 c e x cfg) \<Longrightarrow> cycle v = 1"
  by (simp add: runCycle1_def runRules_def cycle_runRules_loop)

lemma cycle_runCycle2: "v \<in> set (runCycle2 c e x cfg) \<Longrightarrow> cycle v = 2"
  by (simp add: runCycle2_def runRules_def CYCLE2_not_CYCLE1 cycle_runRules_loop)

lemma disabled_not_fires: "rule_id r \<in> set (disabled_of cfg) \<Longrightarrow> \<not> rule_fires r c e x cfg"
  by (simp add: rule_fires_def)

section \<open>The matcher only moves forward\<close>

lemma sfx_refl: "sfx st st"
  by (simp add: sfx_def)

lemma sfx_trans: "sfx a b \<Longrightarrow> sfx b c \<Longrightarrow> sfx a c"
  by (auto simp: sfx_def)

lemma sfx_length: "sfx st' st \<Longrightarrow> length (snd st') \<le> length (snd st)"
  by (auto simp: sfx_def)

lemma sfx_all: "sfx st' st \<Longrightarrow> list_all P (snd st) \<Longrightarrow> list_all P (snd st')"
  by (auto simp: sfx_def)

lemma step_sfx: "st' \<in> set (step P st) \<Longrightarrow> sfx st' st"
  by (cases "(P, st)" rule: step.cases) (auto simp: sfx_def split: if_splits)

lemma step_shorter: "st' \<in> set (step P st) \<Longrightarrow> length (snd st') < length (snd st)"
  by (cases "(P, st)" rule: step.cases) (auto split: if_splits)

lemma star_greedy_sfx:
  assumes m: "\<And>a b. b \<in> set (m a) \<Longrightarrow> sfx b a"
  shows "st' \<in> set (star_greedy m n st) \<Longrightarrow> sfx st' st"
proof (induction n arbitrary: st)
  case 0
  then show ?case by (simp add: sfx_refl)
next
  case (Suc n)
  from Suc.prems consider "st' = st"
    | mid where "mid \<in> set (m st)" "st' \<in> set (star_greedy m n mid)"
    by (auto split: if_splits)
  then show ?case
  proof cases
    case 1
    then show ?thesis by (simp add: sfx_refl)
  next
    case 2
    then show ?thesis using Suc.IH m sfx_trans by blast
  qed
qed

lemma star_lazy_sfx:
  assumes m: "\<And>a b. b \<in> set (m a) \<Longrightarrow> sfx b a"
  shows "st' \<in> set (star_lazy m n st) \<Longrightarrow> sfx st' st"
proof (induction n arbitrary: st)
  case 0
  then show ?case by (simp add: sfx_refl)
next
  case (Suc n)
  from Suc.prems consider "st' = st"
    | mid where "mid \<in> set (m st)" "st' \<in> set (star_lazy m n mid)"
    by (auto split: if_splits)
  then show ?case
  proof cases
    case 1
    then show ?thesis by (simp add: sfx_refl)
  next
    case 2
    then show ?thesis using Suc.IH m sfx_trans by blast
  qed
qed

lemma rmatch_sfx: "st' \<in> set (rmatch f r st) \<Longrightarrow> sfx st' st"
proof (induction r arbitrary: st st')
  case (Seq a b)
  then obtain mid where "mid \<in> set (rmatch f a st)" "st' \<in> set (rmatch f b mid)"
    by auto
  then show ?case using Seq.IH sfx_trans by blast
next
  case (Star r)
  then show ?case using star_greedy_sfx [of "rmatch f r"] by simp
next
  case (LazyStar r)
  then show ?case using star_lazy_sfx [of "rmatch f r"] by simp
qed (auto simp: sfx_refl dest: step_sfx split: if_splits)

lemma rmatch_consuming:
  "consuming r \<Longrightarrow> st' \<in> set (rmatch f r st) \<Longrightarrow> length (snd st') < length (snd st)"
proof (induction r arbitrary: st st')
  case (Seq a b)
  from Seq.prems(2) obtain mid where mid: "mid \<in> set (rmatch f a st)" "st' \<in> set (rmatch f b mid)"
    by auto
  have le1: "length (snd mid) \<le> length (snd st)" using mid(1) rmatch_sfx sfx_length by blast
  have le2: "length (snd st') \<le> length (snd mid)" using mid(2) rmatch_sfx sfx_length by blast
  from Seq.prems(1) have "consuming a \<or> consuming b" by simp
  then show ?case
  proof
    assume "consuming a"
    then have "length (snd mid) < length (snd st)" using Seq.IH(1) mid(1) by blast
    with le2 show ?thesis by simp
  next
    assume "consuming b"
    then have "length (snd st') < length (snd mid)" using Seq.IH(2) mid(2) by blast
    with le1 show ?thesis by simp
  qed
qed (auto dest: step_shorter)

section \<open>Whitespace\<close>

lemma is_space_ws_chars: "is_space x \<Longrightarrow> x \<in> set ws_chars"
proof -
  assume "is_space x"
  then have "code x = 9 \<or> code x = 10 \<or> code x = 11 \<or> code x = 12 \<or> code x = 13
             \<or> code x = 32 \<or> code x = 160"
    by (auto simp: is_space_def)
  then have "x = CHR 0x09 \<or> x = CHR 0x0A \<or> x = CHR 0x0B \<or> x = CHR 0x0C \<or> x = CHR 0x0D
             \<or> x = CHR 0x20 \<or> x = CHR 0xA0"
    by (simp add: code_inj [symmetric]) (simp add: code_def)
  then show ?thesis by (auto simp: ws_chars_def)
qed

lemma step_none: "(\<And>x. x \<in> set (snd st) \<Longrightarrow> \<not> P x) \<Longrightarrow> step P st = []"
  by (cases "(P, st)" rule: step.cases) auto

lemma rmatch_inked:
  "inked f r \<Longrightarrow> list_all is_space (snd st) \<Longrightarrow> rmatch f r st = []"
proof (induction r arbitrary: st)
  case (Lit c)
  then show ?case
    by (auto intro!: step_none dest!: is_space_ws_chars simp: list_all_iff)
next
  case (Cls neg rs)
  then show ?case
    by (auto intro!: step_none dest!: is_space_ws_chars simp: list_all_iff)
next
  case (Seq a b)
  from Seq.prems(1) have "inked f a \<or> inked f b" by simp
  then show ?case
  proof
    assume "inked f a"
    then show ?thesis using Seq.IH(1) Seq.prems(2) by simp
  next
    assume b: "inked f b"
    have "rmatch f b mid = []" if "mid \<in> set (rmatch f a st)" for mid
      using that b Seq.IH(2) Seq.prems(2) rmatch_sfx sfx_all by blast
    then show ?thesis by simp
  qed
qed auto

section \<open>Search\<close>

lemma search_bounds:
  "search pat p cs i = Some (idx, txt) \<Longrightarrow> i \<le> idx \<and> idx + length txt \<le> i + length cs"
proof (induction cs arbitrary: p i)
  case Nil
  then show ?case by (auto split: list.splits)
next
  case (Cons c cs)
  show ?case
  proof (cases "rmatch (fst pat) (snd pat) (p, c # cs)")
    case Nil
    with Cons.prems have "search pat (Some c) cs (Suc i) = Some (idx, txt)" by simp
    from Cons.IH [OF this] show ?thesis by simp
  next
    case (Cons e es)
    with Cons.prems show ?thesis by auto
  qed
qed

lemma search_nonempty:
  "consuming (snd pat) \<Longrightarrow> search pat p cs i = Some (idx, txt) \<Longrightarrow> txt \<noteq> []"
proof (induction cs arbitrary: p i)
  case Nil
  then show ?case
    using rmatch_consuming [of "snd pat" _ "fst pat" "(p, [])"]
    by (auto split: list.splits)
next
  case (Cons c cs)
  show ?case
  proof (cases "rmatch (fst pat) (snd pat) (p, c # cs)")
    case Nil
    with Cons.prems have "search pat (Some c) cs (Suc i) = Some (idx, txt)" by simp
    from Cons.IH [OF Cons.prems(1) this] show ?thesis .
  next
    case (Cons e es)
    then have "e \<in> set (rmatch (fst pat) (snd pat) (p, c # cs))" by simp
    from rmatch_consuming [OF Cons.prems(1) this]
    have "length (snd e) < Suc (length cs)" by simp
    with Cons Cons.prems(2) show ?thesis by auto
  qed
qed

lemma search_inked:
  "inked (fst pat) (snd pat) \<Longrightarrow> list_all is_space cs \<Longrightarrow> search pat p cs i = None"
proof (induction cs arbitrary: p i)
  case Nil
  then show ?case using rmatch_inked [of "fst pat" "snd pat" "(p, [])"] by simp
next
  case (Cons c cs)
  then show ?case using rmatch_inked [of "fst pat" "snd pat" "(p, c # cs)"] by simp
qed

lemma exec_from_bounds:
  "exec_from pat s li = Some (idx, txt) \<Longrightarrow> li \<le> idx \<and> idx + length txt \<le> length s"
  by (auto simp: exec_from_def split: if_splits dest!: search_bounds)

lemma exec_from_nonempty:
  "consuming (snd pat) \<Longrightarrow> exec_from pat s li = Some (idx, txt) \<Longrightarrow> txt \<noteq> []"
  by (auto simp only: exec_from_def split: if_splits dest: search_nonempty)

lemma exec_from_inked:
  "inked (fst pat) (snd pat) \<Longrightarrow> list_all is_space s \<Longrightarrow> exec_from pat s li = None"
  by (simp add: exec_from_def search_inked list_all_iff in_set_dropD)

section \<open>The claim-extraction loop returns\<close>

lemma exec_loop_total:
  assumes c: "consuming (snd pat)"
  shows "\<exists>res. exec_loop pat content li seen claims = Some res"
proof (induction "Suc (length content) - li" arbitrary: li seen claims rule: less_induct)
  case less
  show ?case
  proof (cases "exec_from pat content li")
    case None
    then show ?thesis by (subst exec_loop.simps) simp
  next
    case (Some m)
    obtain idx found where m: "m = (idx, found)" by (cases m)
    from Some m exec_from_bounds have b: "li \<le> idx" "idx + length found \<le> length content"
      by blast+
    from Some m exec_from_nonempty [OF c] have "found \<noteq> []" by blast
    with b have "Suc (length content) - (idx + length found) < Suc (length content) - li"
      by (cases found) auto
    from less [OF this] Some m show ?thesis
      by (subst exec_loop.simps) simp
  qed
qed

lemma exec_loop_inked:
  "inked (fst pat) (snd pat) \<Longrightarrow> list_all is_space content
   \<Longrightarrow> exec_loop pat content li seen claims = Some (seen, claims)"
  by (subst exec_loop.simps) (simp add: exec_from_inked)

lemma extract_patterns_total:
  "list_all (\<lambda>p. consuming (snd p)) ps \<Longrightarrow> \<exists>cl. extract_patterns ps content seen claims = Some cl"
proof (induction ps arbitrary: seen claims)
  case Nil
  then show ?case by simp
next
  case (Cons p ps)
  then obtain res where "exec_loop p content 0 seen claims = Some res"
    using exec_loop_total [of p content 0 seen claims] by auto
  with Cons show ?case by (cases res) auto
qed

lemma extract_patterns_inked:
  "list_all (\<lambda>p. inked (fst p) (snd p)) ps \<Longrightarrow> list_all is_space content
   \<Longrightarrow> extract_patterns ps content seen claims = Some claims"
  by (induction ps) (simp_all add: exec_loop_inked)

lemma claim_patterns_consuming: "list_all (\<lambda>p. consuming (snd p)) CLAIM_PATTERNS"
  by code_simp

lemma claim_patterns_inked: "list_all (\<lambda>p. inked (fst p) (snd p)) CLAIM_PATTERNS"
  by code_simp

lemma vague_pattern_inked: "inked (fst VAGUE_PATTERN) (snd VAGUE_PATTERN)"
  by code_simp

lemma cycle1_inked: "list_all (\<lambda>r. inked (fst (rule_pattern r)) (snd (rule_pattern r))) CYCLE1_RULES"
  by code_simp

lemma cycle2_inked: "list_all (\<lambda>r. inked (fst (rule_pattern r)) (snd (rule_pattern r))) CYCLE2_RULES"
  by code_simp

lemma cycle1_null: "list_all (\<lambda>r. \<not> test_re (rule_pattern r) ''null'') CYCLE1_RULES"
  by code_simp

lemma cycle2_null: "list_all (\<lambda>r. \<not> test_re (rule_pattern r) ''null'') CYCLE2_RULES"
  by code_simp

lemma extractClaims_total: "\<exists>cl. extractClaims content = Some cl"
  unfolding extractClaims_def using claim_patterns_consuming by (rule extract_patterns_total)

lemma extractClaims_space: "list_all is_space content \<Longrightarrow> extractClaims content = Some []"
  unfolding extractClaims_def using claim_patterns_inked by (rule extract_patterns_inked)

section \<open>Substring tests\<close>

lemma startsWith_iff: "startsWith s p \<longleftrightarrow> (\<exists>v. s = p @ v)"
proof
  assume "startsWith s p"
  then have "s = p @ drop (length p) s"
    by (metis append_take_drop_id startsWith_def)
  then show "\<exists>v. s = p @ v" ..
next
  assume "\<exists>v. s = p @ v"
  then show "startsWith s p" by (auto simp: startsWith_def)
qed

lemma endsWith_iff: "endsWith s p \<longleftrightarrow> (\<exists>u. s = u @ p)"
proof
  assume "endsWith s p"
  then have "s = take (length s - length p) s @ p"
    by (metis append_take_drop_id endsWith_def)
  then show "\<exists>u. s = u @ p" ..
next
  assume "\<exists>u. s = u @ p"
  then show "endsWith s p" by (auto simp: endsWith_def)
qed

lemma includes_str_iff: "includes_str s p \<longleftrightarrow> (\<exists>u v. s = u @ p @ v)"
proof (induction s)
  case Nil
  then show ?case by auto
next
  case (Cons c cs)
  show ?case
  proof
    assume "includes_str (c # cs) p"
    then consider "startsWith (c # cs) p" | "includes_str cs p" by auto
    then show "\<exists>u v. c # cs = u @ p @ v"
    proof cases
      case 1
      then obtain v where "c # cs = p @ v" by (auto simp: startsWith_iff)
      then have "c # cs = [] @ p @ v" by simp
      then show ?thesis by blast
    next
      case 2
      then obtain u v where "cs = u @ p @ v" using Cons.IH by auto
      then have "c # cs = (c # u) @ p @ v" by simp
      then show ?thesis by blast
    qed
  next
    assume "\<exists>u v. c # cs = u @ p @ v"
    then obtain u v where uv: "c # cs = u @ p @ v" by auto
    show "includes_str (c # cs) p"
    proof (cases u)
      case Nil
      with uv have "startsWith (c # cs) p" by (auto simp: startsWith_iff)
      then show ?thesis by simp
    next
      case (Cons a u')
      with uv have "cs = u' @ p @ v" by simp
      then have "includes_str cs p" using Cons.IH by blast
      then show ?thesis by simp
    qed
  qed
qed

section \<open>The research verifier\<close>

lemma pass2_facts:
  "v \<in> set (pass2 s d claims) \<Longrightarrow>
     cycle v = 4 \<and> ruleId v \<notin> set d
     \<and> (ruleId v = ''no-unverified-claims'' \<or> ruleId v = ''no-unsourced-claims'')"
  by (auto simp: pass2_def Let_def unverified_violation_def unsourced_violation_def split: if_splits)

lemma runCycle4_total: "\<exists>vs. runCycle4 c p cfg = Some vs"
proof (cases c)
  case JNull
  then show ?thesis by (simp add: runCycle4_def)
next
  case (JStr s)
  obtain cl where "extractClaims s = Some cl" using extractClaims_total by blast
  with JStr show ?thesis
    by (auto simp: runCycle4_def split: option.splits)
qed

lemma runCycle4_JStr:
  "runCycle4 (JStr s) p cfg =
     (if s = [] then Some []
      else if ''no-vague-claims'' \<notin> set (disabled_of cfg) \<and> search VAGUE_PATTERN None s 0 \<noteq> None
      then Some [vague_violation (snd (the (search VAGUE_PATTERN None s 0)))]
      else map_option (pass2 s (disabled_of cfg)) (extractClaims s))"
  by (auto simp: runCycle4_def split: option.splits)

lemma runCycle4_facts:
  assumes "runCycle4 c p cfg = Some vs" and "v \<in> set vs"
  shows "cycle v = 4 \<and> ruleId v \<notin> set (disabled_of cfg)
         \<and> ruleId v \<in> {''no-vague-claims'', ''no-unverified-claims'', ''no-unsourced-claims''}"
proof (cases c)
  case JNull
  with assms show ?thesis by (simp add: runCycle4_def)
next
  case (JStr s)
  show ?thesis
  proof (cases "''no-vague-claims'' \<notin> set (disabled_of cfg) \<and> search VAGUE_PATTERN None s 0 \<noteq> None")
    case True
    with assms JStr show ?thesis
      by (auto simp: runCycle4_JStr vague_violation_def split: if_splits)
  next
    case False
    with assms JStr have "s = [] \<and> vs = [] \<or> (\<exists>cl. vs = pass2 s (disabled_of cfg) cl)"
      by (auto simp: runCycle4_JStr split: if_splits)
    with assms(2) show ?thesis using pass2_facts by fastforce
  qed
qed

lemma test_re_nonempty: "consuming (snd pat) \<Longrightarrow> test_re pat s \<Longrightarrow> s \<noteq> []"
proof
  assume c: "consuming (snd pat)" and t: "test_re pat s" and "s = []"
  then obtain idx found where "search pat None [] 0 = Some (idx, found)"
    by (auto simp: test_re_def)
  from search_nonempty [OF c this] search_bounds [OF this] show False by simp
qed

lemma vague_pattern_consuming: "consuming (snd VAGUE_PATTERN)"
  by code_simp

lemma cycle4_ids_fresh:
  "{''no-vague-claims'', ''no-unverified-claims'', ''no-unsourced-claims''}
     \<inter> rule_id ` set (CYCLE1_RULES @ CYCLE2_RULES) = {}"
  by (simp add: CYCLE1_RULES_def CYCLE2_RULES_def)

lemma extractClaims_Nil: "extractClaims [] = Some []"
  by (rule extractClaims_space) simp

lemma runRules_none:
  "list_all (\<lambda>r. \<not> test_re (rule_pattern r) (to_string c)) rs \<Longrightarrow> runRules rs c e x cfg = []"
  by (auto simp: runRules_def runRules_loop_filter filter_empty_conv list_all_iff rule_fires_def)

lemma inked_no_test:
  "list_all (\<lambda>r. inked (fst (rule_pattern r)) (snd (rule_pattern r))) rs \<Longrightarrow> list_all is_space s
   \<Longrightarrow> list_all (\<lambda>r. \<not> test_re (rule_pattern r) s) rs"
  by (simp add: list_all_iff test_re_def search_inked)

section \<open>Claims about the research verifier\<close>

text \<open>
  C3 (vague-language short-circuit).  Whenever the content matches the vague-phrase pattern
  and \<open>no-vague-claims\<close> is not disabled, \<open>runCycle4\<close> returns exactly one violation, and
  its rule id is \<open>no-vague-claims\<close>; nothing is assumed about claims, sources or the marker
  in the content.
\<close>
theorem vague_short_circuit:
  assumes "test_re VAGUE_PATTERN s" and "''no-vague-claims'' \<notin> set (disabled_of cfg)"
  shows "\<exists>v. runCycle4 (JStr s) p cfg = Some [v] \<and> ruleId v = ''no-vague-claims''"
proof -
  from assms(1) have "s \<noteq> []" using test_re_nonempty vague_pattern_consuming by blast
  moreover from assms(1) have "search VAGUE_PATTERN None s 0 \<noteq> None" by (simp add: test_re_def)
  ultimately show ?thesis using assms(2)
    by (simp add: runCycle4_JStr vague_violation_def)
qed

theorem vague_short_circuit_witness:
  "\<exists>v. runCycle4 (JStr ''Studies show revenue grew 45%.'') ''notes.md'' cfg0 = Some [v]
       \<and> ruleId v = ''no-vague-claims''"
proof -
  have t: "test_re VAGUE_PATTERN ''Studies show revenue grew 45%.''" by code_simp
  have d: "''no-vague-claims'' \<notin> set (disabled_of cfg0)" by (simp add: cfg0_def disabled_of_def)
  from vague_short_circuit [OF t d] show ?thesis .
qed

text \<open>
  C4 (marker exactness).  For a document with at least one extracted claim and no vague
  language the call returns, and the marker check is decided by the literal text of
  \<open>VERIFICATION_TAG\<close> alone.  A violation with rule id \<open>no-unverified-claims\<close> is returned
  if and only if the content does not contain that text and the rule is not disabled.
  Without the text the result is that one violation (category 4, its message naming the
  number of claims), or nothing when the rule is disabled; with the text the sourcing pass
  runs instead, whose only possible violation is \<open>no-unsourced-claims\<close>.
\<close>
theorem marker_exactness:
  assumes "extractClaims s = Some claims" and "claims \<noteq> []" and "\<not> test_re VAGUE_PATTERN s"
  shows "\<exists>vs. runCycle4 (JStr s) p cfg = Some vs
     \<and> (''no-unverified-claims'' \<in> ruleId ` set vs \<longleftrightarrow>
          \<not> (\<exists>u v. s = u @ VERIFICATION_TAG @ v) \<and> ''no-unverified-claims'' \<notin> set (disabled_of cfg))
     \<and> (\<not> (\<exists>u v. s = u @ VERIFICATION_TAG @ v) \<longrightarrow>
          vs = (if ''no-unverified-claims'' \<notin> set (disabled_of cfg)
                then [\<lparr>ruleId = ''no-unverified-claims'', cycle = 4,
                       message = msg_unverified @ [nl, nl] @ ''Found '' @ show_nat (length claims)
                                 @ '' claim(s) without verification tag.''\<rparr>]
                else []))
     \<and> ((\<exists>u v. s = u @ VERIFICATION_TAG @ v) \<longrightarrow>
          vs = (if ''no-unsourced-claims'' \<notin> set (disabled_of cfg)
                   \<and> filter (\<lambda>c. \<not> hasNearbySource s (claim_index c)) claims \<noteq> []
                then [\<lparr>ruleId = ''no-unsourced-claims'', cycle = 4,
                       message = msg_unsourced @ [nl, nl] @ ''Found ''
                                 @ show_nat (length (filter (\<lambda>c. \<not> hasNearbySource s (claim_index c)) claims))
                                 @ '' unsourced claim(s).''\<rparr>]
                else []))"
proof -
  from assms(1,2) have ne: "s \<noteq> []" using extractClaims_Nil by auto
  from assms(3) have nv: "search VAGUE_PATTERN None s 0 = None" unfolding test_re_def by blast
  have run: "runCycle4 (JStr s) p cfg = Some (pass2 s (disabled_of cfg) claims)"
    using ne nv assms(1) by (simp add: runCycle4_JStr)
  have tag: "includes_str s VERIFICATION_TAG \<longleftrightarrow> (\<exists>u v. s = u @ VERIFICATION_TAG @ v)"
    by (rule includes_str_iff)
  show ?thesis
  proof (cases "includes_str s VERIFICATION_TAG")
    case True
    then have "pass2 s (disabled_of cfg) claims =
        (if ''no-unsourced-claims'' \<notin> set (disabled_of cfg)
            \<and> filter (\<lambda>c. \<not> hasNearbySource s (claim_index c)) claims \<noteq> []
         then [unsourced_violation (length (filter (\<lambda>c. \<not> hasNearbySource s (claim_index c)) claims))]
         else [])"
      using assms(2) by (simp add: pass2_def Let_def)
    with True show ?thesis
      unfolding run tag [symmetric] by (simp add: unsourced_violation_def)
  next
    case False
    then have "pass2 s (disabled_of cfg) claims =
        (if ''no-unverified-claims'' \<notin> set (disabled_of cfg)
         then [unverified_violation (length claims)] else [])"
      using assms(2) by (simp add: pass2_def Let_def)
    with False show ?thesis
      unfolding run tag [symmetric] by (simp add: unverified_violation_def)
  qed
qed

text \<open>
  C6 (disabling is exhaustive).  A rule id in \<open>disabledRules\<close> is the rule id of no
  violation returned by \<open>runCycle1\<close>, \<open>runCycle2\<close> or \<open>runCycle4\<close> (which returns), for
  every content, file extension, context and path.
\<close>
theorem disabling_exhaustive:
  assumes "r \<in> set (disabled_of cfg)"
  shows "r \<notin> ruleId ` set (runCycle1 c e x cfg) \<and> r \<notin> ruleId ` set (runCycle2 c e x cfg)
         \<and> (\<exists>vs. runCycle4 c p cfg = Some vs \<and> r \<notin> ruleId ` set vs)"
proof -
  have "r \<notin> ruleId ` set (runRules rs c e x cfg)" for rs
    using assms by (auto simp: ruleId_runRules disabled_not_fires)
  moreover obtain vs where vs: "runCycle4 c p cfg = Some vs" using runCycle4_total by blast
  moreover have "r \<notin> ruleId ` set vs" using runCycle4_facts [OF vs] assms by auto
  ultimately show ?thesis by (simp add: runCycle1_def runCycle2_def)
qed

theorem disabling_exhaustive_witness:
  "''no-todo'' \<notin> ruleId ` set (runCycle1 (JStr ''TODO eval(x) 45%'') ''.py'' ''file-write'' cfg_off)
   \<and> ''no-eval'' \<notin> ruleId ` set (runCycle2 (JStr ''TODO eval(x) 45%'') ''.py'' ''file-write'' cfg_off)
   \<and> (\<exists>vs. runCycle4 (JStr ''TODO eval(x) 45%'') ''a.md'' cfg_off = Some vs
         \<and> ''no-unverified-claims'' \<notin> ruleId ` set vs)"
proof -
  have d: "''no-todo'' \<in> set (disabled_of cfg_off)" "''no-eval'' \<in> set (disabled_of cfg_off)"
    "''no-unverified-claims'' \<in> set (disabled_of cfg_off)"
    by (simp_all add: cfg_off_def disabled_of_def)
  show ?thesis
    using disabling_exhaustive [OF d(1)] disabling_exhaustive [OF d(2)] disabling_exhaustive [OF d(3)]
    by blast
qed

text \<open>
  C8 (blank content).  For content that is \<open>null\<close>, empty or made of whitespace only, the
  three verifiers return the empty list, for every file extension, context, path and
  configuration; \<open>runCycle4\<close> returns.
\<close>
theorem total_on_blank:
  assumes "c = JNull \<or> (\<exists>s. c = JStr s \<and> list_all is_space s)"
  shows "runCycle1 c e x cfg = [] \<and> runCycle2 c e x cfg = [] \<and> runCycle4 c p cfg = Some []"
proof -
  from assms consider "c = JNull" | s where "c = JStr s" "list_all is_space s" by auto
  then show ?thesis
  proof cases
    case 1
    then show ?thesis
      using cycle1_null cycle2_null
      by (simp add: runCycle1_def runCycle2_def runRules_none to_string_def runCycle4_def)
  next
    case 2
    have "search VAGUE_PATTERN None s 0 = None"
      using vague_pattern_inked 2(2) by (rule search_inked)
    then have "runCycle4 c p cfg = Some []"
      using 2 by (simp add: runCycle4_JStr extractClaims_space pass2_def)
    moreover have "runCycle1 c e x cfg = []"
      unfolding runCycle1_def using inked_no_test [OF cycle1_inked 2(2)] 2(1)
      by (intro runRules_none) (simp add: to_string_def)
    moreover have "runCycle2 c e x cfg = []"
      unfolding runCycle2_def using inked_no_test [OF cycle2_inked 2(2)] 2(1)
      by (intro runRules_none) (simp add: to_string_def)
    ultimately show ?thesis by simp
  qed
qed

theorem total_on_blank_witness:
  "runCycle1 (JStr [CHR '' '', CHR 0x0A, CHR 0x09]) ''.py'' ''file-write'' cfg0 = []
   \<and> runCycle2 (JStr [CHR '' '', CHR 0x0A, CHR 0x09]) ''.py'' ''file-write'' cfg0 = []
   \<and> runCycle4 (JStr [CHR '' '', CHR 0x0A, CHR 0x09]) ''a.md'' cfg0 = Some []
   \<and> runCycle1 JNull ''.py'' ''file-write'' cfg0 = [] \<and> runCycle2 JNull '''' ''bash'' cfg0 = []
   \<and> runCycle4 JNull ''a.md'' cfg0 = Some []"
proof -
  have "list_all is_space [CHR '' '', CHR 0x0A, CHR 0x09]" by (simp add: is_space_def code_def)
  then have b: "JStr [CHR '' '', CHR 0x0A, CHR 0x09] = JNull
      \<or> (\<exists>s. JStr [CHR '' '', CHR 0x0A, CHR 0x09] = JStr s \<and> list_all is_space s)" by blast
  have n: "JNull = JNull \<or> (\<exists>s. JNull = JStr s \<and> list_all is_space s)" by simp
  show ?thesis
    using total_on_blank [OF b] total_on_blank [OF n] by simp
qed

theorem marker_exactness_witness:
  "map_option (map ruleId) (runCycle4 (JStr near_miss_space) [] cfg0) = Some [''no-unverified-claims'']
   \<and> map_option (map ruleId) (runCycle4 (JStr near_miss_case) [] cfg0) = Some [''no-unverified-claims'']
   \<and> map_option (map ruleId) (runCycle4 (JStr near_miss_spacing) [] cfg0) = Some [''no-unverified-claims'']"
proof -
  have d: "''no-unverified-claims'' \<notin> set (disabled_of cfg0)" by (simp add: cfg0_def disabled_of_def)
  have c1: "extractClaims near_miss_space = Some [\<lparr>claim_text = ''45%'', claim_index = 42\<rparr>]"
    unfolding near_miss_space_def by code_simp
  have c2: "extractClaims near_miss_case = Some [\<lparr>claim_text = ''45%'', claim_index = 42\<rparr>]"
    unfolding near_miss_case_def by code_simp
  have c3: "extractClaims near_miss_spacing = Some [\<lparr>claim_text = ''45%'', claim_index = 40\<rparr>]"
    unfolding near_miss_spacing_def by code_simp
  have v1: "\<not> test_re VAGUE_PATTERN near_miss_space" unfolding near_miss_space_def by code_simp
  have v2: "\<not> test_re VAGUE_PATTERN near_miss_case" unfolding near_miss_case_def by code_simp
  have v3: "\<not> test_re VAGUE_PATTERN near_miss_spacing" unfolding near_miss_spacing_def by code_simp
  have t1: "\<not> includes_str near_miss_space VERIFICATION_TAG" unfolding near_miss_space_def by code_simp
  have t2: "\<not> includes_str near_miss_case VERIFICATION_TAG" unfolding near_miss_case_def by code_simp
  have t3: "\<not> includes_str near_miss_spacing VERIFICATION_TAG" unfolding near_miss_spacing_def by code_simp
  have n1: "\<not> (\<exists>u v. near_miss_space = u @ VERIFICATION_TAG @ v)"
    using t1 by (simp add: includes_str_iff)
  have n2: "\<not> (\<exists>u v. near_miss_case = u @ VERIFICATION_TAG @ v)"
    using t2 by (simp add: includes_str_iff)
  have n3: "\<not> (\<exists>u v. near_miss_spacing = u @ VERIFICATION_TAG @ v)"
    using t3 by (simp add: includes_str_iff)
  have ne: "[x] \<noteq> []" for x :: claim by simp
  from marker_exactness [OF c1 ne v1, of "[]" cfg0] d n1
  have r1: "map_option (map ruleId) (runCycle4 (JStr near_miss_space) [] cfg0) = Some [''no-unverified-claims'']"
    by auto
  from marker_exactness [OF c2 ne v2, of "[]" cfg0] d n2
  have r2: "map_option (map ruleId) (runCycle4 (JStr near_miss_case) [] cfg0) = Some [''no-unverified-claims'']"
    by auto
  from marker_exactness [OF c3 ne v3, of "[]" cfg0] d n3
  have r3: "map_option (map ruleId) (runCycle4 (JStr near_miss_spacing) [] cfg0) = Some [''no-unverified-claims'']"
    by auto
  from r1 r2 r3 show ?thesis by simp
qed

section \<open>Claims about the rule evaluator, the dispatcher and the path utilities\<close>

lemma ruleId_in_cycles:
  assumes "r \<in> set CYCLE1_RULES \<union> set CYCLE2_RULES"
  shows "rule_id r \<in> ruleId ` set (runCycle1 c e x cfg @ runCycle2 c e x cfg)
         \<longleftrightarrow> rule_fires r c e x cfg"
proof -
  have d: "distinct (map rule_id (CYCLE1_RULES @ CYCLE2_RULES))" by (rule distinct_rule_ids)
  then have inj: "inj_on rule_id (set (CYCLE1_RULES @ CYCLE2_RULES))"
    by (simp only: distinct_map)
  have mem: "r \<in> set (CYCLE1_RULES @ CYCLE2_RULES)" using assms by simp
  have eq: "ruleId ` set (runCycle1 c e x cfg @ runCycle2 c e x cfg)
            = rule_id ` {r' \<in> set (CYCLE1_RULES @ CYCLE2_RULES). rule_fires r' c e x cfg}"
    unfolding set_append image_Un runCycle1_def runCycle2_def ruleId_runRules by blast
  show ?thesis
  proof
    assume "rule_id r \<in> ruleId ` set (runCycle1 c e x cfg @ runCycle2 c e x cfg)"
    then obtain r' where r': "r' \<in> set (CYCLE1_RULES @ CYCLE2_RULES)" "rule_fires r' c e x cfg"
      "rule_id r = rule_id r'"
      unfolding eq by blast
    from inj_onD [OF inj r'(3) mem r'(1)] r'(2) show "rule_fires r c e x cfg" by simp
  next
    assume "rule_fires r c e x cfg"
    with mem show "rule_id r \<in> ruleId ` set (runCycle1 c e x cfg @ runCycle2 c e x cfg)"
      unfolding eq by blast
  qed
qed

text \<open>
  C7 (file-type filtering).  For a rule of either catalogue: if its extension list is
  non-empty and the supplied extension is non-empty and not in the list, no violation
  carries its rule id; if the supplied extension is empty, a violation carries its rule id
  exactly when the rule is not disabled, applies to the context and its pattern matches.
\<close>
theorem file_type_filtering:
  assumes "r \<in> set CYCLE1_RULES \<union> set CYCLE2_RULES"
  shows "(fileExtensions r = Some exts \<and> exts \<noteq> [] \<and> ext \<noteq> [] \<and> ext \<notin> set exts
            \<longrightarrow> rule_id r \<notin> ruleId ` set (runCycle1 c ext x cfg @ runCycle2 c ext x cfg))
         \<and> (rule_id r \<in> ruleId ` set (runCycle1 c [] x cfg @ runCycle2 c [] x cfg)
            \<longleftrightarrow> rule_id r \<notin> set (disabled_of cfg) \<and> (appliesTo r = ''all'' \<or> appliesTo r = x)
                \<and> test_re (rule_pattern r) (to_string c))"
  unfolding ruleId_in_cycles [OF assms]
  by (auto simp: rule_fires_def split: option.splits)

theorem file_type_filtering_witness:
  "''no-empty-pass'' \<notin> ruleId ` set (runCycle1 (JStr ''pass'') ''.js'' ''file-write'' cfg0
                                        @ runCycle2 (JStr ''pass'') ''.js'' ''file-write'' cfg0)
   \<and> ''no-empty-pass'' \<in> ruleId ` set (runCycle1 (JStr ''pass'') [] ''file-write'' cfg0
                                        @ runCycle2 (JStr ''pass'') [] ''file-write'' cfg0)"
proof -
  have m: "rule_no_empty_pass \<in> set CYCLE1_RULES \<union> set CYCLE2_RULES"
    by (simp add: rule_no_empty_pass_def CYCLE1_RULES_def)
  have f: "fileExtensions rule_no_empty_pass = Some [''.py'', ''.pyi'']"
    "rule_id rule_no_empty_pass = ''no-empty-pass''" "appliesTo rule_no_empty_pass = ''file-write''"
    "rule_pattern rule_no_empty_pass = pat_no_empty_pass"
    by (simp_all add: rule_no_empty_pass_def CYCLE1_RULES_def)
  have t: "test_re pat_no_empty_pass ''pass''" by code_simp
  have d: "disabled_of cfg0 = []" by (simp add: cfg0_def disabled_of_def)
  from file_type_filtering [OF m, of "[''.py'', ''.pyi'']" "''.js''" "JStr ''pass''" "''file-write''" cfg0]
  show ?thesis
    by (simp add: f t d to_string_def)
qed

text \<open>
  C2 (the \<open>rm -rf /\<close> scenario).  The security rules are run on the command \<open>rm -rf /\<close> with
  an empty extension, no disabled rule and the shell context, which the source names
  \<open>bash\<close>: the result is empty, so it holds no \<open>no-rm-rf\<close> violation.  The pattern wants a
  whitespace character or \<open>*\<close> after the slash; with a trailing space the rule fires.
\<close>
theorem rm_rf_root_not_flagged:
  "runCycle2 (JStr ''rm -rf /'') [] ''bash'' \<lparr>disabledRules = Some [], cycle4_enabled = None\<rparr> = []
   \<and> runCycle2 (JStr ''rm -rf /'') [] ''shell-command'' \<lparr>disabledRules = Some [], cycle4_enabled = None\<rparr> = []
   \<and> map ruleId (runCycle2 (JStr ''rm -rf / '') [] ''bash'' \<lparr>disabledRules = Some [], cycle4_enabled = None\<rparr>)
       = [''no-rm-rf'']"
  by code_simp

text \<open>
  C1 (dispatch and merge).  For an operation with content: if the path is a research file
  and \<open>cycle4.enabled\<close> is not \<open>false\<close>, the violations are those of \<open>runCycle4\<close>, which
  returns, and each has category 4 and a rule id that belongs to neither catalogue;
  otherwise they are those of \<open>runCycle1\<close> followed by those of \<open>runCycle2\<close>, of categories
  1 and 2.  The gate blocks exactly when that list is non-empty.
\<close>
theorem dispatch_merge:
  assumes "ex = extractContent toolName toolInput" and "ex_content ex \<noteq> []"
  shows "(isResearchFile (ex_filePath ex) \<and> cycle4_enabled cfg \<noteq> Some False \<longrightarrow>
            allViolations cfg ex = runCycle4 (JStr (ex_content ex)) (ex_filePath ex) cfg
            \<and> (\<exists>vs. allViolations cfg ex = Some vs
                  \<and> (\<forall>v \<in> set vs. cycle v = 4 \<and> ruleId v \<notin> rule_id ` set (CYCLE1_RULES @ CYCLE2_RULES))))
         \<and> (\<not> (isResearchFile (ex_filePath ex) \<and> cycle4_enabled cfg \<noteq> Some False) \<longrightarrow>
            allViolations cfg ex
              = Some (runCycle1 (JStr (ex_content ex)) (ex_fileExt ex) (ex_context ex) cfg
                      @ runCycle2 (JStr (ex_content ex)) (ex_fileExt ex) (ex_context ex) cfg)
            \<and> (\<forall>v \<in> set (runCycle1 (JStr (ex_content ex)) (ex_fileExt ex) (ex_context ex) cfg). cycle v = 1)
            \<and> (\<forall>v \<in> set (runCycle2 (JStr (ex_content ex)) (ex_fileExt ex) (ex_context ex) cfg). cycle v = 2))
         \<and> preToolGate cfg toolName toolInput
             = map_option (\<lambda>vs. if vs \<noteq> [] then Block (reasonText vs) else Approve) (allViolations cfg ex)"
proof -
  obtain vs where vs: "runCycle4 (JStr (ex_content ex)) (ex_filePath ex) cfg = Some vs"
    using runCycle4_total by blast
  have "cycle v = 4 \<and> ruleId v \<notin> rule_id ` set (CYCLE1_RULES @ CYCLE2_RULES)" if "v \<in> set vs" for v
    using runCycle4_facts [OF vs that] cycle4_ids_fresh by blast
  with vs have research: "isResearchFile (ex_filePath ex) \<and> cycle4_enabled cfg \<noteq> Some False \<longrightarrow>
      allViolations cfg ex = runCycle4 (JStr (ex_content ex)) (ex_filePath ex) cfg
      \<and> (\<exists>vs. allViolations cfg ex = Some vs
            \<and> (\<forall>v \<in> set vs. cycle v = 4 \<and> ruleId v \<notin> rule_id ` set (CYCLE1_RULES @ CYCLE2_RULES)))"
    by (simp add: allViolations_def)
  have other: "\<not> (isResearchFile (ex_filePath ex) \<and> cycle4_enabled cfg \<noteq> Some False) \<longrightarrow>
      allViolations cfg ex
        = Some (runCycle1 (JStr (ex_content ex)) (ex_fileExt ex) (ex_context ex) cfg
                @ runCycle2 (JStr (ex_content ex)) (ex_fileExt ex) (ex_context ex) cfg)"
    by (simp add: allViolations_def Let_def)
  have gate: "preToolGate cfg toolName toolInput
      = map_option (\<lambda>vs. if vs \<noteq> [] then Block (reasonText vs) else Approve) (allViolations cfg ex)"
    using assms by (simp add: preToolGate_def Let_def)
  show ?thesis
    using research other gate cycle_runCycle1 cycle_runCycle2 by blast
qed

theorem dispatch_merge_witness:
  "allViolations cfg0 (extractContent ''Write'' [(''file_path'', ''docs/research/q1.md''), (''content'', ''TODO 45%'')])
     = Some [unverified_violation 1]
   \<and> map_option (map ruleId)
        (allViolations cfg0 (extractContent ''Write'' [(''file_path'', ''src/app.py''), (''content'', ''TODO eval(x)'')]))
     = Some [''no-todo'', ''no-eval'']"
proof -
  let ?r = "extractContent ''Write'' [(''file_path'', ''docs/research/q1.md''), (''content'', ''TODO 45%'')]"
  let ?c = "extractContent ''Write'' [(''file_path'', ''src/app.py''), (''content'', ''TODO eval(x)'')]"
  have r: "?r = \<lparr>ex_content = ''TODO 45%'', ex_context = ''file-write'', ex_fileExt = ''.md'',
                  ex_filePath = ''docs/research/q1.md''\<rparr>"
    by code_simp
  have c: "?c = \<lparr>ex_content = ''TODO eval(x)'', ex_context = ''file-write'', ex_fileExt = ''.py'',
                  ex_filePath = ''src/app.py''\<rparr>"
    by code_simp
  have ir: "isResearchFile ''docs/research/q1.md''" by code_simp
  have ic: "\<not> isResearchFile ''src/app.py''" by code_simp
  have en: "cycle4_enabled cfg0 \<noteq> Some False" by (simp add: cfg0_def)
  have r4: "runCycle4 (JStr ''TODO 45%'') ''docs/research/q1.md'' cfg0 = Some [unverified_violation 1]"
    unfolding cfg0_def by code_simp
  have r1: "map ruleId (runCycle1 (JStr ''TODO eval(x)'') ''.py'' ''file-write'' cfg0) = [''no-todo'']"
    unfolding cfg0_def by code_simp
  have r2: "map ruleId (runCycle2 (JStr ''TODO eval(x)'') ''.py'' ''file-write'' cfg0) = [''no-eval'']"
    unfolding cfg0_def by code_simp
  have ner: "ex_content ?r \<noteq> []" unfolding r by simp
  have nec: "ex_content ?c \<noteq> []" unfolding c by simp
  have "allViolations cfg0 ?r = Some [unverified_violation 1]"
    using dispatch_merge [OF refl ner, of cfg0] ir en r4 unfolding r by simp
  moreover have "map_option (map ruleId) (allViolations cfg0 ?c) = Some [''no-todo'', ''no-eval'']"
    using dispatch_merge [OF refl nec, of cfg0] ic r1 r2 unfolding c by simp
  ultimately show ?thesis by blast
qed

subsection \<open>The file extension\<close>















section \<open>Research-file classification\<close>

lemma toLowerCh_fixed:
  "code d < 65 \<or> (90 < code d \<and> code d < 97) \<Longrightarrow> toLowerCh c = d \<longleftrightarrow> c = d"
  by (auto simp: code_inj [symmetric] code_toLowerCh lower_code_def)

lemma toLowerCh_slash: "toLowerCh c = CHR ''/'' \<longleftrightarrow> c = CHR ''/''"
  by (rule toLowerCh_fixed) (simp add: code_def)

lemma toLowerCh_backslash: "toLowerCh c = backslash \<longleftrightarrow> c = backslash"
  by (rule toLowerCh_fixed) (simp add: code_def backslash_def)

lemma toLowerCh_slash_id: "toLowerCh CHR ''/'' = CHR ''/''"
  by (simp add: toLowerCh_slash)

lemma slashes_toLowerCase: "slashes (toLowerCase s) = toLowerCase (slashes s)"
  by (induction s) (simp_all add: slashes_def toLowerCase_def toLowerCh_backslash toLowerCh_slash_id)

lemma slashes_idem: "slashes (slashes s) = slashes s"
  by (induction s) (auto simp: slashes_def backslash_def)

lemma slashes_backslashes: "slashes (backslashes s) = slashes s"
  by (induction s) (auto simp: slashes_def backslashes_def)

lemma split_on_not_Nil: "split_on d s \<noteq> []"
  by (induction s) (auto split: list.splits)

lemma split_on_single: "d \<notin> set s \<Longrightarrow> split_on d s = [s]"
  by (induction s) auto

lemma split_on_two: "d \<in> set s \<Longrightarrow> \<exists>x y ys. split_on d s = x # y # ys"
proof (induction s)
  case Nil
  then show ?case by simp
next
  case (Cons c cs)
  show ?case
  proof (cases "c = d")
    case True
    then show ?thesis using split_on_not_Nil [of d cs] by (cases "split_on d cs") auto
  next
    case False
    with Cons.prems have "d \<in> set cs" by simp
    then obtain x y ys where "split_on d cs = x # y # ys" using Cons.IH by blast
    with False show ?thesis by simp
  qed
qed

lemma last_split_on_append: "last (split_on d (xs @ d # ys)) = last (split_on d ys)"
proof (induction xs)
  case Nil
  then show ?case by (simp add: split_on_not_Nil)
next
  case (Cons c xs)
  show ?case
  proof (cases "c = d")
    case True
    then show ?thesis using Cons.IH by (simp add: split_on_not_Nil)
  next
    case False
    obtain x y zs where "split_on d (xs @ d # ys) = x # y # zs"
      using split_on_two [of d "xs @ d # ys"] by auto
    with False Cons.IH show ?thesis by simp
  qed
qed

text \<open>The file name: the part of the path after the last separator.\<close>

lemma file_name_unique:
  assumes "s = dir @ name" and "d \<notin> set name" and "dir = [] \<or> last dir = d"
  shows "last (split_on d s) = name"
proof (cases "dir = []")
  case True
  with assms show ?thesis by (simp add: split_on_single)
next
  case False
  with assms(3) have "dir = butlast dir @ [d]" by (metis append_butlast_last_id)
  with assms(1) have "s = butlast dir @ d # name" by (metis append.assoc append_Cons append_Nil)
  then show ?thesis using assms(2) by (simp add: last_split_on_append split_on_single)
qed

lemma file_name_exists:
  "\<exists>dir. s = dir @ last (split_on d s) \<and> d \<notin> set (last (split_on d s)) \<and> (dir = [] \<or> last dir = d)"
proof (cases "d \<in> set s")
  case False
  then show ?thesis by (simp add: split_on_single)
next
  case True
  then obtain xs ys where s: "s = xs @ d # ys" and ys: "d \<notin> set ys"
    by (meson split_list_last)
  have l: "last (split_on d s) = ys"
    unfolding s using ys by (simp add: last_split_on_append split_on_single)
  have "s = (xs @ [d]) @ ys" using s by simp
  then show ?thesis using l ys by (metis last_snoc)
qed

lemma isResearchFile_norm:
  "isResearchFile p = (let n = toLowerCase (slashes p) in
     endsWith n ''.md'' \<and> (includes_str n ''/research/'' \<or> includes_str (last (split_on CHR ''/'' n)) ''research''))"
proof (cases "p = []")
  case True
  then show ?thesis by (simp add: isResearchFile_def toLowerCase_def slashes_def endsWith_def)
next
  case False
  then show ?thesis by (simp add: isResearchFile_def Let_def)
qed

text \<open>
  What \<open>isResearchFile\<close> computes.  Let \<open>n\<close> be the path with back-slashes turned into
  slashes and lower-cased.  The function holds exactly when \<open>n\<close> ends in \<open>.md\<close> and either
  contains the text \<open>/research/\<close>, slashes included, or has a file name (the part after the
  last slash) that contains \<open>research\<close>.  Hence two paths with the same \<open>n\<close> classify alike.
\<close>
lemma isResearchFile_characterisation:
  "(isResearchFile p \<longleftrightarrow>
      (\<exists>u. toLowerCase (slashes p) = u @ ''.md'')
      \<and> ((\<exists>u v. toLowerCase (slashes p) = u @ ''/research/'' @ v)
         \<or> (\<exists>dir name u v. toLowerCase (slashes p) = dir @ name \<and> CHR ''/'' \<notin> set name
               \<and> (dir = [] \<or> last dir = CHR ''/'') \<and> name = u @ ''research'' @ v)))
   \<and> (toLowerCase (slashes q) = toLowerCase (slashes p) \<longrightarrow> isResearchFile q = isResearchFile p)
   \<and> isResearchFile (toLowerCase p) = isResearchFile p
   \<and> isResearchFile (slashes p) = isResearchFile p
   \<and> isResearchFile (backslashes p) = isResearchFile p"
proof -
  let ?n = "toLowerCase (slashes p)"
  let ?f = "last (split_on CHR ''/'' ?n)"
  have name: "includes_str ?f ''research'' \<longleftrightarrow>
      (\<exists>dir name u v. ?n = dir @ name \<and> CHR ''/'' \<notin> set name
          \<and> (dir = [] \<or> last dir = CHR ''/'') \<and> name = u @ ''research'' @ v)"
  proof
    assume "includes_str ?f ''research''"
    then obtain u v where "?f = u @ ''research'' @ v" unfolding includes_str_iff by blast
    moreover obtain dir where "?n = dir @ ?f" "CHR ''/'' \<notin> set ?f" "dir = [] \<or> last dir = CHR ''/''"
      using file_name_exists [of ?n "CHR ''/''"] by blast
    ultimately show "\<exists>dir name u v. ?n = dir @ name \<and> CHR ''/'' \<notin> set name
          \<and> (dir = [] \<or> last dir = CHR ''/'') \<and> name = u @ ''research'' @ v"
      by blast
  next
    assume "\<exists>dir name u v. ?n = dir @ name \<and> CHR ''/'' \<notin> set name
          \<and> (dir = [] \<or> last dir = CHR ''/'') \<and> name = u @ ''research'' @ v"
    then obtain dir name u v where d: "?n = dir @ name" "CHR ''/'' \<notin> set name"
      "dir = [] \<or> last dir = CHR ''/''" and n: "name = u @ ''research'' @ v"
      by blast
    from file_name_unique [OF d] have "?f = name" .
    with n show "includes_str ?f ''research''" unfolding includes_str_iff by blast
  qed
  have first: "isResearchFile p \<longleftrightarrow>
      (\<exists>u. ?n = u @ ''.md'')
      \<and> ((\<exists>u v. ?n = u @ ''/research/'' @ v)
         \<or> (\<exists>dir name u v. ?n = dir @ name \<and> CHR ''/'' \<notin> set name
               \<and> (dir = [] \<or> last dir = CHR ''/'') \<and> name = u @ ''research'' @ v))"
    unfolding isResearchFile_norm Let_def name [symmetric] endsWith_iff
    by (simp only: includes_str_iff [of ?n])
  have same: "isResearchFile a = isResearchFile b" if "toLowerCase (slashes a) = toLowerCase (slashes b)" for a b
    using that by (simp add: isResearchFile_norm)
  have "isResearchFile (toLowerCase p) = isResearchFile p"
    by (rule same) (simp add: slashes_toLowerCase toLowerCase_idem)
  moreover have "isResearchFile (slashes p) = isResearchFile p"
    by (rule same) (simp add: slashes_idem)
  moreover have "isResearchFile (backslashes p) = isResearchFile p"
    by (rule same) (simp add: slashes_backslashes)
  ultimately show ?thesis using first same by blast
qed

lemma split_on_append: "split_on d (xs @ d # ys) = split_on d xs @ split_on d ys"
proof (induction xs)
  case Nil
  then show ?case by simp
next
  case (Cons c xs)
  then show ?case
    using split_on_not_Nil [of d xs] by (cases "split_on d xs") auto
qed

text \<open>Whatever \<open>isResearchFile\<close> accepts is a research target in the specification's sense.\<close>

lemma isResearchFile_sound: "isResearchFile p \<Longrightarrow> isResearchTarget_spec p"
proof -
  assume r: "isResearchFile p"
  let ?n = "toLowerCase (slashes p)"
  from r have md: "endsWith ?n ''.md''"
    and alt: "includes_str ?n ''/research/'' \<or> includes_str (last (split_on CHR ''/'' ?n)) ''research''"
    by (simp_all add: isResearchFile_norm Let_def)
  have "''research'' \<in> set (butlast (split_on CHR ''/'' ?n))" if "includes_str ?n ''/research/''"
  proof -
    from that obtain u v where "?n = u @ ''/research/'' @ v" unfolding includes_str_iff by blast
    then have "?n = u @ CHR ''/'' # (''research'' @ CHR ''/'' # v)" by simp
    then have "split_on CHR ''/'' ?n
        = split_on CHR ''/'' u @ split_on CHR ''/'' ''research'' @ split_on CHR ''/'' v"
      by (simp only: split_on_append)
    moreover have "split_on CHR ''/'' ''research'' = [''research'']" by (rule split_on_single) simp
    ultimately have "split_on CHR ''/'' ?n = (split_on CHR ''/'' u @ [''research'']) @ split_on CHR ''/'' v"
      by simp
    then show ?thesis
      using split_on_not_Nil [of "CHR ''/''" v] by (simp add: butlast_append)
  qed
  with md alt show ?thesis by (auto simp: isResearchTarget_spec_def Let_def)
qed

text \<open>
  C9 (research-target classification).  The specification classifies a markdown path with a
  directory segment named \<open>research\<close> as a research target.  \<open>isResearchFile\<close> looks for the
  text \<open>/research/\<close> with both slashes, so a relative path that begins with the directory
  \<open>research\<close> is rejected although it is a research target: the two documented examples
  below are classified false by the code and true by the specification's wording.  Paths
  where the directory is preceded by a separator are accepted, with either separator and in
  any letter case.
\<close>
theorem relative_research_prefix_rejected:
  "\<not> isResearchFile ''research/competitor-review.md''
   \<and> isResearchTarget_spec ''research/competitor-review.md''
   \<and> \<not> isResearchFile ''research/2024/q4-analysis.md''
   \<and> isResearchTarget_spec ''research/2024/q4-analysis.md''
   \<and> isResearchFile ''docs/research/market-analysis.md''
   \<and> isResearchFile path_windows
   \<and> \<not> isResearchFile ''docs/researcher/notes.md''
   \<and> \<not> isResearchTarget_spec ''docs/researcher/notes.md''"
proof -
  have a: "\<not> isResearchFile ''research/competitor-review.md''" by code_simp
  have b: "isResearchTarget_spec ''research/competitor-review.md''" by code_simp
  have c: "\<not> isResearchFile ''research/2024/q4-analysis.md''" by code_simp
  have d: "isResearchTarget_spec ''research/2024/q4-analysis.md''" by code_simp
  have e: "isResearchFile ''docs/research/market-analysis.md''" by code_simp
  have f: "isResearchFile path_windows" unfolding path_windows_def by code_simp
  have g: "\<not> isResearchFile ''docs/researcher/notes.md''" by code_simp
  have h: "\<not> isResearchTarget_spec ''docs/researcher/notes.md''" by code_simp
  from a b c d e f g h show ?thesis by blast
qed

section \<open>The source window\<close>

lemma step_extend:
  "(q, zs) \<in> set (step P (p, xs)) \<Longrightarrow> (q, zs @ ys) \<in> set (step P (p, xs @ ys))"
  by (cases xs) (auto split: if_splits)

lemma star_greedy_self: "st \<in> set (star_greedy m n st)"
  by (cases n) simp_all

lemma star_lazy_self: "st \<in> set (star_lazy m n st)"
  by (cases n) simp_all

lemma star_greedy_extend:
  assumes m: "\<And>p xs q zs. (q, zs) \<in> set (m (p, xs)) \<Longrightarrow> (q, zs @ ys) \<in> set (m (p, xs @ ys))"
  shows "(q, zs) \<in> set (star_greedy m n (p, xs)) \<Longrightarrow> n \<le> k
         \<Longrightarrow> (q, zs @ ys) \<in> set (star_greedy m k (p, xs @ ys))"
proof (induction n arbitrary: k p xs)
  case 0
  then show ?case by (simp add: star_greedy_self)
next
  case (Suc n)
  from Suc.prems(2) obtain k' where k: "k = Suc k'" "n \<le> k'" by (cases k) auto
  from Suc.prems(1) consider "(q, zs) = (p, xs)"
    | q1 z1 where "(q1, z1) \<in> set (m (p, xs))" "length z1 < length xs"
        "(q, zs) \<in> set (star_greedy m n (q1, z1))"
    by (auto split: if_splits)
  then show ?case
  proof cases
    case 1
    then show ?thesis by (simp add: star_greedy_self)
  next
    case 2
    from m [OF 2(1)] have a: "(q1, z1 @ ys) \<in> set (m (p, xs @ ys))" .
    from Suc.IH [OF 2(3) k(2)] have b: "(q, zs @ ys) \<in> set (star_greedy m k' (q1, z1 @ ys))" .
    from a b 2(2) show ?thesis unfolding k(1) by (auto intro!: bexI [of _ "(q1, z1 @ ys)"])
  qed
qed

lemma star_lazy_extend:
  assumes m: "\<And>p xs q zs. (q, zs) \<in> set (m (p, xs)) \<Longrightarrow> (q, zs @ ys) \<in> set (m (p, xs @ ys))"
  shows "(q, zs) \<in> set (star_lazy m n (p, xs)) \<Longrightarrow> n \<le> k
         \<Longrightarrow> (q, zs @ ys) \<in> set (star_lazy m k (p, xs @ ys))"
proof (induction n arbitrary: k p xs)
  case 0
  then show ?case by (simp add: star_lazy_self)
next
  case (Suc n)
  from Suc.prems(2) obtain k' where k: "k = Suc k'" "n \<le> k'" by (cases k) auto
  from Suc.prems(1) consider "(q, zs) = (p, xs)"
    | q1 z1 where "(q1, z1) \<in> set (m (p, xs))" "length z1 < length xs"
        "(q, zs) \<in> set (star_lazy m n (q1, z1))"
    by (auto split: if_splits)
  then show ?case
  proof cases
    case 1
    then show ?thesis by (simp add: star_lazy_self)
  next
    case 2
    from m [OF 2(1)] have a: "(q1, z1 @ ys) \<in> set (m (p, xs @ ys))" .
    from Suc.IH [OF 2(3) k(2)] have b: "(q, zs @ ys) \<in> set (star_lazy m k' (q1, z1 @ ys))" .
    from a b 2(2) show ?thesis unfolding k(1) by (auto intro!: bexI [of _ "(q1, z1 @ ys)"])
  qed
qed

lemma rmatch_extend:
  "rlocal r \<Longrightarrow> (q, zs) \<in> set (rmatch f r (p, xs)) \<Longrightarrow> (q, zs @ ys) \<in> set (rmatch f r (p, xs @ ys))"
proof (induction r arbitrary: p xs q zs)
  case (Seq a b)
  from Seq.prems(2) obtain q1 z1 where mid: "(q1, z1) \<in> set (rmatch f a (p, xs))"
    "(q, zs) \<in> set (rmatch f b (q1, z1))"
    by auto
  from Seq.prems(1) have "rlocal a" "rlocal b" by simp_all
  from Seq.IH(1) [OF \<open>rlocal a\<close> mid(1)] Seq.IH(2) [OF \<open>rlocal b\<close> mid(2)]
  show ?case by (auto intro!: bexI [of _ "(q1, z1 @ ys)"])
next
  case (Star r)
  then show ?case
    using star_greedy_extend [of "rmatch f r" ys q zs "length xs" p xs "length (xs @ ys)"]
    by simp
next
  case (LazyStar r)
  then show ?case
    using star_lazy_extend [of "rmatch f r" ys q zs "length xs" p xs "length (xs @ ys)"]
    by simp
next
  case Bol
  then show ?case by (auto simp: at_bol_def split: if_splits)
qed (auto dest: step_extend split: if_splits)

lemma search_Some_iff:
  "search pat p cs i \<noteq> None \<longleftrightarrow>
     (rmatch (fst pat) (snd pat) (p, cs) \<noteq> []
      \<or> (\<exists>c cs'. cs = c # cs' \<and> search pat (Some c) cs' (Suc i) \<noteq> None))"
  by (cases cs) (auto split: list.splits)

lemma search_extend:
  assumes "rlocal (snd pat)"
  shows "search pat p xs i \<noteq> None \<Longrightarrow> search pat p (xs @ ys) i \<noteq> None"
proof (induction xs arbitrary: p i)
  case Nil
  then have "rmatch (fst pat) (snd pat) (p, []) \<noteq> []" by (auto split: list.splits)
  then obtain q zs where "(q, zs) \<in> set (rmatch (fst pat) (snd pat) (p, []))"
    by (cases "rmatch (fst pat) (snd pat) (p, [])") auto
  from rmatch_extend [OF assms this, of ys] have "rmatch (fst pat) (snd pat) (p, ys) \<noteq> []"
    by auto
  then show ?case by (subst search_Some_iff) simp
next
  case (Cons c xs)
  show ?case
  proof (cases "rmatch (fst pat) (snd pat) (p, c # xs)")
    case Nil
    with Cons.prems have "search pat (Some c) xs (Suc i) \<noteq> None" by simp
    from Cons.IH [OF this] show ?thesis by (subst search_Some_iff) simp
  next
    case (Cons e es)
    obtain q zs where "e = (q, zs)" by (cases e)
    with Cons have "(q, zs) \<in> set (rmatch (fst pat) (snd pat) (p, c # xs))" by simp
    from rmatch_extend [OF assms this, of ys]
    have "rmatch (fst pat) (snd pat) (p, (c # xs) @ ys) \<noteq> []" by auto
    then show ?thesis by (subst search_Some_iff) simp
  qed
qed

lemma test_re_extend: "rlocal (snd pat) \<Longrightarrow> test_re pat xs \<Longrightarrow> test_re pat (xs @ ys)"
  by (simp add: test_re_def search_extend)

lemma source_patterns_rlocal: "list_all (\<lambda>p. rlocal (snd p)) SOURCE_PATTERNS"
  by code_simp

lemma sources_extend:
  assumes "list_ex (\<lambda>p. test_re p xs) SOURCE_PATTERNS"
  shows "list_ex (\<lambda>p. test_re p (xs @ ys)) SOURCE_PATTERNS"
proof -
  from assms obtain pat where pat: "pat \<in> set SOURCE_PATTERNS" "test_re pat xs"
    by (auto simp: list_ex_iff)
  from pat(1) source_patterns_rlocal have "rlocal (snd pat)" by (simp add: list_all_iff)
  from test_re_extend [OF this pat(2)] pat(1) show ?thesis by (auto simp: list_ex_iff)
qed

text \<open>
  C5 (the source window), as the code has it.  The window of a claim at index \<open>i\<close> is
  \<open>content.slice(i - 300, i + 300)\<close>, end exclusive.  (1) A source that begins exactly 300
  characters before the claim start, and is at most 600 long, makes the claim sourced.
  (2) Text from offset +300 on is outside the window: whatever is appended there does not
  change the verdict.  (3) Text more than 300 characters before the claim start is outside
  the window as well.
\<close>
theorem source_window_half_open:
  "(length pre + SOURCE_PROXIMITY = i \<and> length src \<le> 2 * SOURCE_PROXIMITY
      \<and> list_ex (\<lambda>p. test_re p src) SOURCE_PATTERNS \<longrightarrow> hasNearbySource (pre @ src @ rest) i)
   \<and> (length front = i + SOURCE_PROXIMITY \<longrightarrow> hasNearbySource (front @ tail) i = hasNearbySource front i)
   \<and> hasNearbySource (pre @ back) (length pre + SOURCE_PROXIMITY) = hasNearbySource back SOURCE_PROXIMITY"
proof -
  have one: "hasNearbySource (pre @ src @ rest) i"
    if i: "length pre + SOURCE_PROXIMITY = i" and len: "length src \<le> 2 * SOURCE_PROXIMITY"
      and src: "list_ex (\<lambda>p. test_re p src) SOURCE_PATTERNS"
  proof -
    define n where "n = min (length src + length rest) (2 * SOURCE_PROXIMITY)"
    have n: "length src \<le> n" using len by (simp add: n_def)
    have "slice (pre @ src @ rest) (i - SOURCE_PROXIMITY) (min (length (pre @ src @ rest)) (i + SOURCE_PROXIMITY))
          = take n (src @ rest)"
      using i by (auto simp: slice_def n_def min_def mult_2)
    also have "\<dots> = src @ take (n - length src) rest" using n by simp
    finally show ?thesis
      using sources_extend [OF src] by (simp add: hasNearbySource_def Let_def)
  qed
  have two: "hasNearbySource (front @ tail) i = hasNearbySource front i"
    if "length front = i + SOURCE_PROXIMITY"
    using that by (simp add: hasNearbySource_def Let_def slice_def min_def)
  have three: "hasNearbySource (pre @ back) (length pre + SOURCE_PROXIMITY) = hasNearbySource back SOURCE_PROXIMITY"
    by (simp add: hasNearbySource_def Let_def slice_def min_def)
  from one two three show ?thesis by blast
qed

theorem source_window_half_open_witness:
  "hasNearbySource doc_before300 300
   \<and> extractClaims doc_before300 = Some [\<lparr>claim_text = ''45%'', claim_index = 300\<rparr>]
   \<and> runCycle4 (JStr doc_before300) [] cfg0 = Some []
   \<and> hasNearbySource doc_after300 28
       = hasNearbySource (VERIFICATION_TAG @ ''45%'' @ replicate 297 CHR '' '') 28"
proof -
  have src: "list_ex (\<lambda>p. test_re p ''https://x.com'') SOURCE_PATTERNS" by code_simp
  have len: "length ''https://x.com'' \<le> 2 * SOURCE_PROXIMITY" by (simp add: SOURCE_PROXIMITY_def)
  have at: "length ([] :: string) + SOURCE_PROXIMITY = 300" by (simp add: SOURCE_PROXIMITY_def)
  have near: "hasNearbySource doc_before300 300"
    using source_window_half_open [of "[]" 300 "''https://x.com''"
        "replicate 287 CHR '' '' @ ''45%'' @ VERIFICATION_TAG"] src len at
    unfolding doc_before300_def by simp
  have front: "length (VERIFICATION_TAG @ ''45%'' @ replicate 297 CHR '' '') = 28 + SOURCE_PROXIMITY"
    by (simp add: VERIFICATION_TAG_def SOURCE_PROXIMITY_def)
  have cut: "hasNearbySource doc_after300 28
       = hasNearbySource (VERIFICATION_TAG @ ''45%'' @ replicate 297 CHR '' '') 28"
    using source_window_half_open [where front = "VERIFICATION_TAG @ ''45%'' @ replicate 297 CHR '' ''"
        and i = 28 and tail = "''https://x.com''"] front
    unfolding doc_after300_def by simp
  have claims: "extractClaims doc_before300 = Some [\<lparr>claim_text = ''45%'', claim_index = 300\<rparr>]"
    unfolding doc_before300_def by code_simp
  have vague: "search VAGUE_PATTERN None doc_before300 0 = None"
    unfolding doc_before300_def by code_simp
  have tag: "includes_str doc_before300 VERIFICATION_TAG"
    unfolding doc_before300_def by code_simp
  have ne: "doc_before300 \<noteq> []" by (simp add: doc_before300_def)
  have run: "runCycle4 (JStr doc_before300) [] cfg0 = Some []"
    using ne vague claims tag near by (simp add: runCycle4_JStr pass2_def)
  from near claims run cut show ?thesis by blast
qed

text \<open>
  The document \<open>doc_after300\<close> has the tag, one claim at index 28 and the URL
  \<open>https://x.com\<close>, a source, exactly 300 characters after the claim start.  The claim is not
  counted as sourced: the verifier returns \<open>no-unsourced-claims\<close>.
\<close>
theorem source_at_plus_300_counterexample:
  "extractClaims doc_after300 = Some [\<lparr>claim_text = ''45%'', claim_index = 28\<rparr>]
   \<and> take 13 (drop (28 + 300) doc_after300) = ''https://x.com''
   \<and> list_ex (\<lambda>p. test_re p ''https://x.com'') SOURCE_PATTERNS
   \<and> \<not> hasNearbySource doc_after300 28
   \<and> runCycle4 (JStr doc_after300) [] cfg0 = Some [unsourced_violation 1]"
proof -
  have src: "list_ex (\<lambda>p. test_re p ''https://x.com'') SOURCE_PATTERNS" by code_simp
  have at: "take 13 (drop (28 + 300) doc_after300) = ''https://x.com''"
    unfolding doc_after300_def by code_simp
  have claims: "extractClaims doc_after300 = Some [\<lparr>claim_text = ''45%'', claim_index = 28\<rparr>]"
    unfolding doc_after300_def by code_simp
  have vague: "search VAGUE_PATTERN None doc_after300 0 = None"
    unfolding doc_after300_def by code_simp
  have tag: "includes_str doc_after300 VERIFICATION_TAG"
    unfolding doc_after300_def by code_simp
  have far: "\<not> hasNearbySource doc_after300 28"
    unfolding doc_after300_def by code_simp
  have ne: "doc_after300 \<noteq> []" by (simp add: doc_after300_def VERIFICATION_TAG_def)
  have run: "runCycle4 (JStr doc_after300) [] cfg0 = Some [unsourced_violation 1]"
    using ne vague claims tag far by (simp add: runCycle4_JStr pass2_def cfg0_def disabled_of_def)
  from claims at src far run show ?thesis by blast
qed

end
